theory Spec2Isabelle
  imports Main "HOL-Library.AList" "HOL-Library.Char_ord" "HOL-Library.List_Lexorder"
begin

section \<open>Data model (src/types/task.ts, src/storage/database.ts)\<close>

text \<open>
  The enum \<^verbatim>\<open>TaskStatus\<close> and the interface \<^verbatim>\<open>Task\<close>. The field \<^verbatim>\<open>id\<close> is
  called \<open>task_id\<close> and \<^verbatim>\<open>type\<close> is called \<open>task_type\<close>, since \<open>id\<close> is the identity
  function of HOL. Optional fields (\<^verbatim>\<open>started_at?\<close> and so on) are options, \<open>None\<close>
  standing for \<^verbatim>\<open>undefined\<close>. Numbers are integers.
\<close>

datatype TaskStatus = QUEUED | RUNNING | COMPLETED | FAILED | WAITING

record Task =
  task_id :: string
  task_type :: string
  duration_ms :: int
  dependencies :: "string list"
  status :: TaskStatus
  created_at :: int
  started_at :: "int option"
  completed_at :: "int option"
  error :: "string option"
  retry_count :: "int option"

text \<open>
  A row of the table \<^verbatim>\<open>tasks\<close>: the columns of a task and the column \<^verbatim>\<open>version\<close>.
  In a row, \<open>None\<close> is SQL NULL. The table is the list of its rows in the order of
  insertion (the rowid order of SQLite).
\<close>

record row = Task +
  version :: nat

type_synonym database = "row list"

text \<open>The interface \<^verbatim>\<open>TaskInput\<close>; \<^verbatim>\<open>dependencies\<close> is optional.\<close>

record TaskInput =
  ti_id :: string
  ti_type :: string
  ti_duration_ms :: int
  ti_dependencies :: "string list option"

text \<open>
  The argument \<^verbatim>\<open>updates: Partial<Task>\<close> of \<^verbatim>\<open>updateTaskStatus\<close>, restricted to the
  four keys the function reads. \<open>None\<close> is \<^verbatim>\<open>undefined\<close>: a key that is absent and a
  key that is present with the value \<^verbatim>\<open>undefined\<close> are the same thing to the code.
\<close>

record updates =
  u_started_at :: "int option"
  u_completed_at :: "int option"
  u_error :: "string option"
  u_retry_count :: "int option"

definition no_updates :: updates where
  "no_updates = \<lparr>u_started_at = None, u_completed_at = None, u_error = None, u_retry_count = None\<rparr>"

text \<open>The primary key: no two rows of the table have the same id.\<close>

definition pk_ok :: "database \<Rightarrow> bool" where
  "pk_ok db = distinct (map task_id db)"

text \<open>
  \<^verbatim>\<open>rowToTask\<close>: \<^verbatim>\<open>row.x || undefined\<close> turns NULL, 0 and the empty string into
  \<^verbatim>\<open>undefined\<close>; \<^verbatim>\<open>row.retry_count || 0\<close> turns NULL into 0.
\<close>

definition falsy_num :: "int option \<Rightarrow> int option" where
  "falsy_num x = (if x = Some 0 then None else x)"

definition falsy_str :: "string option \<Rightarrow> string option" where
  "falsy_str x = (if x = Some [] then None else x)"

definition rowToTask :: "row \<Rightarrow> Task" where
  "rowToTask r =
     \<lparr>task_id = task_id r, task_type = task_type r, duration_ms = duration_ms r,
      dependencies = dependencies r, status = status r, created_at = created_at r,
      started_at = falsy_num (started_at r), completed_at = falsy_num (completed_at r),
      error = falsy_str (error r),
      retry_count = (case retry_count r of None \<Rightarrow> Some 0 | Some n \<Rightarrow> Some n)\<rparr>"

text \<open>\<^verbatim>\<open>SELECT * FROM tasks WHERE id = ?\<close>: the row with that id, if there is one.\<close>

definition select_by_id :: "database \<Rightarrow> string \<Rightarrow> row option" where
  "select_by_id db taskId = find (\<lambda>r. task_id r = taskId) db"

definition getTask :: "database \<Rightarrow> string \<Rightarrow> Task option" where
  "getTask db taskId =
     (case select_by_id db taskId of None \<Rightarrow> None | Some r \<Rightarrow> Some (rowToTask r))"

definition getTaskWithVersion :: "database \<Rightarrow> string \<Rightarrow> (Task \<times> nat) option" where
  "getTaskWithVersion db taskId =
     (case select_by_id db taskId of None \<Rightarrow> None | Some r \<Rightarrow> Some (rowToTask r, version r))"

text \<open>
  \<^verbatim>\<open>ORDER BY created_at ASC\<close> sorts the rows by \<open>created_at\<close>; rows with the same
  \<open>created_at\<close> stay in the order of the table (\<open>sort_key\<close> is a stable sort).
\<close>

definition getAllTasks :: "database \<Rightarrow> Task list" where
  "getAllTasks db = map rowToTask (sort_key created_at db)"

definition getTasksByStatus :: "database \<Rightarrow> TaskStatus \<Rightarrow> Task list" where
  "getTasksByStatus db st = map rowToTask (sort_key created_at (filter (\<lambda>r. status r = st) db))"

text \<open>
  Exceptions of the JavaScript run time that the code can meet: the \<^verbatim>\<open>RangeError\<close> of
  an exhausted call stack, and the \<^verbatim>\<open>SqliteError\<close> of the database driver with its
  \<^verbatim>\<open>code\<close>.
\<close>

datatype js_error = RangeError | SqliteError string

text \<open>
  \<^verbatim>\<open>insertTask\<close>. When the id is taken the INSERT throws; the driver (better-sqlite3)
  reports the violated primary key with the code \<^verbatim>\<open>SQLITE_CONSTRAINT_PRIMARYKEY\<close>. The
  \<^verbatim>\<open>catch\<close> block returns \<^verbatim>\<open>false\<close> only for the code \<^verbatim>\<open>SQLITE_CONSTRAINT\<close> and throws
  every other error again. Otherwise the row is appended with version 0 and the function
  returns \<^verbatim>\<open>true\<close>. \<^verbatim>\<open>task.x || null\<close> stores NULL for \<^verbatim>\<open>undefined\<close>, 0 and the empty
  string.
\<close>

definition primary_key_violation :: string where
  "primary_key_violation = ''SQLITE_CONSTRAINT_PRIMARYKEY''"

definition insertTask :: "database \<Rightarrow> Task \<Rightarrow> js_error + bool \<times> database" where
  "insertTask db t =
     (if task_id t \<in> set (map task_id db)
      then (if primary_key_violation = ''SQLITE_CONSTRAINT'' then Inr (False, db)
            else Inl (SqliteError primary_key_violation))
      else Inr (True, db @
        [\<lparr>task_id = task_id t, task_type = task_type t, duration_ms = duration_ms t,
          dependencies = dependencies t, status = status t, created_at = created_at t,
          started_at = falsy_num (started_at t), completed_at = falsy_num (completed_at t),
          error = falsy_str (error t),
          retry_count = (case retry_count t of None \<Rightarrow> Some 0 | Some n \<Rightarrow> Some n),
          version = 0\<rparr>]))"

text \<open>
  \<^verbatim>\<open>updateTaskStatus\<close>. The statement is
  \<^verbatim>\<open>UPDATE tasks SET status = ?, version = version + 1 [, started_at = ?] ... WHERE id = ? AND version = ?\<close>
  where a column is in the SET list only if its key of \<^verbatim>\<open>updates\<close> is not
  \<^verbatim>\<open>undefined\<close>. The result is \<^verbatim>\<open>result.changes > 0\<close>.
\<close>

definition set_fields :: "TaskStatus \<Rightarrow> updates \<Rightarrow> row \<Rightarrow> row" where
  "set_fields newStatus u r =
     r\<lparr>status := newStatus,
       version := version r + 1,
       started_at := (case u_started_at u of None \<Rightarrow> started_at r | Some x \<Rightarrow> Some x),
       completed_at := (case u_completed_at u of None \<Rightarrow> completed_at r | Some x \<Rightarrow> Some x),
       error := (case u_error u of None \<Rightarrow> error r | Some x \<Rightarrow> Some x),
       retry_count := (case u_retry_count u of None \<Rightarrow> retry_count r | Some x \<Rightarrow> Some x)\<rparr>"

definition where_clause :: "string \<Rightarrow> nat \<Rightarrow> row \<Rightarrow> bool" where
  "where_clause taskId currentVersion r \<longleftrightarrow> task_id r = taskId \<and> version r = currentVersion"

definition updateTaskStatus ::
  "database \<Rightarrow> string \<Rightarrow> TaskStatus \<Rightarrow> nat \<Rightarrow> updates \<Rightarrow> bool \<times> database" where
  "updateTaskStatus db taskId newStatus currentVersion u =
     (let changes = length (filter (where_clause taskId currentVersion) db)
      in (changes > 0,
          map (\<lambda>r. if where_clause taskId currentVersion r then set_fields newStatus u r else r) db))"

section \<open>The version gate of the store\<close>

lemma select_by_id_Some:
  "select_by_id db i = Some r \<Longrightarrow> r \<in> set db \<and> task_id r = i"
  unfolding select_by_id_def by (induction db) (auto split: if_splits)

lemma select_by_id_None:
  "select_by_id db i = None \<longleftrightarrow> i \<notin> task_id ` set db"
  unfolding select_by_id_def by (induction db) auto

lemma select_by_id_unique:
  "pk_ok db \<Longrightarrow> r \<in> set db \<Longrightarrow> select_by_id db (task_id r) = Some r"
  unfolding select_by_id_def pk_ok_def by (induction db) auto

lemma task_id_set_fields [simp]: "task_id (set_fields st u r) = task_id r"
  by (simp add: set_fields_def)

lemma status_set_fields [simp]: "status (set_fields st u r) = st"
  by (simp add: set_fields_def)

lemma version_set_fields [simp]: "version (set_fields st u r) = Suc (version r)"
  by (simp add: set_fields_def)

lemma update_ids [simp]:
  "map task_id (snd (updateTaskStatus db i st v u)) = map task_id db"
  by (simp add: updateTaskStatus_def Let_def comp_def)

lemma update_pk_ok [simp]: "pk_ok (snd (updateTaskStatus db i st v u)) = pk_ok db"
  by (simp add: pk_ok_def)

lemma update_fst:
  "fst (updateTaskStatus db i st v u) \<longleftrightarrow> (\<exists>r\<in>set db. task_id r = i \<and> version r = v)"
  by (auto simp: updateTaskStatus_def Let_def where_clause_def filter_empty_conv)

lemma update_miss:
  "\<not> (\<exists>r\<in>set db. task_id r = i \<and> version r = v) \<Longrightarrow> snd (updateTaskStatus db i st v u) = db"
  unfolding updateTaskStatus_def Let_def snd_conv where_clause_def
  by (rule map_idI) auto

lemma select_map_other:
  assumes "\<And>r. task_id (f r) = task_id r" and "\<And>r. task_id r \<noteq> i \<Longrightarrow> f r = r"
  shows "j \<noteq> i \<Longrightarrow> select_by_id (map f db) j = select_by_id db j"
  unfolding select_by_id_def using assms by (induction db) auto

lemma select_map_hit:
  assumes "\<And>r. task_id (f r) = task_id r"
  shows "select_by_id (map f db) j = map_option f (select_by_id db j)"
  unfolding select_by_id_def using assms by (induction db) auto

lemma update_select_other:
  "j \<noteq> i \<Longrightarrow> select_by_id (snd (updateTaskStatus db i st v u)) j = select_by_id db j"
  unfolding updateTaskStatus_def Let_def snd_conv
  by (rule select_map_other) (auto simp: where_clause_def)

lemma update_select_hit:
  "select_by_id db i = Some r \<Longrightarrow> version r = v \<Longrightarrow>
   select_by_id (snd (updateTaskStatus db i st v u)) i = Some (set_fields st u r)"
  unfolding updateTaskStatus_def Let_def snd_conv
  by (subst select_map_hit) (auto simp: where_clause_def dest: select_by_id_Some)

lemma pk_ok_map:
  assumes "\<And>r. task_id (f r) = task_id r"
  shows "pk_ok (map f db) = pk_ok db"
proof -
  have "map task_id (map f db) = map task_id db"
    using assms by (induction db) auto
  then show ?thesis by (simp only: pk_ok_def)
qed

lemma pk_row_by_id:
  "pk_ok db \<Longrightarrow> r \<in> set db \<Longrightarrow> task_id r = i \<Longrightarrow> select_by_id db i = Some r"
  using select_by_id_unique by blast

text \<open>
  Claim C1. On a table that satisfies its primary key, \<open>updateTaskStatus\<close> returns
  \<^verbatim>\<open>true\<close> (claimed) if and only if the row stored under the id has the expected
  version. When it does, the row under that id becomes the old row with the new
  status, the version plus one and exactly the supplied ones of the four partial fields
  overwritten, and every other id keeps its row. When it does not (the version differs
  or the id is absent), the call returns \<^verbatim>\<open>false\<close> (stale) and the table is unchanged.
\<close>

theorem updateTaskStatus_version_gate:
  assumes "pk_ok db"
  shows "(fst (updateTaskStatus db i st v u) \<longleftrightarrow>
            (\<exists>r. select_by_id db i = Some r \<and> version r = v))
       \<and> (\<forall>r. select_by_id db i = Some r \<and> version r = v \<longrightarrow>
            select_by_id (snd (updateTaskStatus db i st v u)) i =
              Some (r\<lparr>status := st, version := v + 1,
                      started_at := (case u_started_at u of None \<Rightarrow> started_at r | Some x \<Rightarrow> Some x),
                      completed_at := (case u_completed_at u of None \<Rightarrow> completed_at r | Some x \<Rightarrow> Some x),
                      error := (case u_error u of None \<Rightarrow> error r | Some x \<Rightarrow> Some x),
                      retry_count := (case u_retry_count u of None \<Rightarrow> retry_count r | Some x \<Rightarrow> Some x)\<rparr>)
            \<and> (\<forall>j. j \<noteq> i \<longrightarrow>
                  select_by_id (snd (updateTaskStatus db i st v u)) j = select_by_id db j))
       \<and> (\<not> (\<exists>r. select_by_id db i = Some r \<and> version r = v) \<longrightarrow>
            updateTaskStatus db i st v u = (False, db))"
proof -
  have iff: "(\<exists>r\<in>set db. task_id r = i \<and> version r = v) \<longleftrightarrow>
             (\<exists>r. select_by_id db i = Some r \<and> version r = v)"
    using assms by (metis pk_row_by_id select_by_id_Some)
  have a: "fst (updateTaskStatus db i st v u) \<longleftrightarrow>
             (\<exists>r. select_by_id db i = Some r \<and> version r = v)"
    using update_fst iff by simp
  have b: "select_by_id (snd (updateTaskStatus db i st v u)) i =
              Some (r\<lparr>status := st, version := v + 1,
                      started_at := (case u_started_at u of None \<Rightarrow> started_at r | Some x \<Rightarrow> Some x),
                      completed_at := (case u_completed_at u of None \<Rightarrow> completed_at r | Some x \<Rightarrow> Some x),
                      error := (case u_error u of None \<Rightarrow> error r | Some x \<Rightarrow> Some x),
                      retry_count := (case u_retry_count u of None \<Rightarrow> retry_count r | Some x \<Rightarrow> Some x)\<rparr>)"
    if "select_by_id db i = Some r" "version r = v" for r
    using update_select_hit [OF that, of st u] that(2) by (simp add: set_fields_def)
  have c: "updateTaskStatus db i st v u = (False, db)"
    if "\<not> (\<exists>r. select_by_id db i = Some r \<and> version r = v)"
  proof -
    from that iff have n: "\<not> (\<exists>r\<in>set db. task_id r = i \<and> version r = v)" by simp
    have "fst (updateTaskStatus db i st v u) = False" using update_fst n by simp
    moreover have "snd (updateTaskStatus db i st v u) = db" using update_miss [OF n] .
    ultimately show ?thesis by (simp add: prod_eq_iff)
  qed
  show ?thesis using a b c update_select_other by blast
qed

text \<open>A table with one row, used to instantiate the theorems.\<close>

theorem updateTaskStatus_version_gate_witness:
  "pk_ok [\<lparr>task_id = ''a'', task_type = ''X'', duration_ms = 0, dependencies = [], status = QUEUED,
            created_at = 5, started_at = None, completed_at = None, error = None,
            retry_count = Some 0, version = 3\<rparr>]
   \<and> fst (updateTaskStatus
        [\<lparr>task_id = ''a'', task_type = ''X'', duration_ms = 0, dependencies = [], status = QUEUED,
            created_at = 5, started_at = None, completed_at = None, error = None,
            retry_count = Some 0, version = 3\<rparr>] ''a'' RUNNING 3 (no_updates\<lparr>u_started_at := Some 9\<rparr>))
   \<and> select_by_id (snd (updateTaskStatus
        [\<lparr>task_id = ''a'', task_type = ''X'', duration_ms = 0, dependencies = [], status = QUEUED,
            created_at = 5, started_at = None, completed_at = None, error = None,
            retry_count = Some 0, version = 3\<rparr>] ''a'' RUNNING 3 (no_updates\<lparr>u_started_at := Some 9\<rparr>))) ''a''
       = Some \<lparr>task_id = ''a'', task_type = ''X'', duration_ms = 0, dependencies = [], status = RUNNING,
            created_at = 5, started_at = Some 9, completed_at = None, error = None,
            retry_count = Some 0, version = 4\<rparr>
   \<and> updateTaskStatus
        [\<lparr>task_id = ''a'', task_type = ''X'', duration_ms = 0, dependencies = [], status = QUEUED,
            created_at = 5, started_at = None, completed_at = None, error = None,
            retry_count = Some 0, version = 3\<rparr>] ''a'' RUNNING 2 (no_updates\<lparr>u_started_at := Some 9\<rparr>)
       = (False, [\<lparr>task_id = ''a'', task_type = ''X'', duration_ms = 0, dependencies = [], status = QUEUED,
            created_at = 5, started_at = None, completed_at = None, error = None,
            retry_count = Some 0, version = 3\<rparr>])"
proof -
  let ?r = "\<lparr>task_id = ''a'', task_type = ''X'', duration_ms = 0, dependencies = [], status = QUEUED,
            created_at = 5, started_at = None, completed_at = None, error = None,
            retry_count = Some 0, version = 3\<rparr>"
  let ?u = "no_updates\<lparr>u_started_at := Some 9\<rparr>"
  have pk: "pk_ok [?r]" by (simp add: pk_ok_def)
  have sel: "select_by_id [?r] ''a'' = Some ?r" by (simp add: select_by_id_def)
  from updateTaskStatus_version_gate [OF pk, of "''a''" RUNNING 3 ?u] sel
  have hit: "fst (updateTaskStatus [?r] ''a'' RUNNING 3 ?u)"
    and new: "select_by_id (snd (updateTaskStatus [?r] ''a'' RUNNING 3 ?u)) ''a''
       = Some \<lparr>task_id = ''a'', task_type = ''X'', duration_ms = 0, dependencies = [], status = RUNNING,
            created_at = 5, started_at = Some 9, completed_at = None, error = None,
            retry_count = Some 0, version = 4\<rparr>"
    by (simp_all add: no_updates_def)
  from updateTaskStatus_version_gate [OF pk, of "''a''" RUNNING 2 ?u] sel
  have stale: "updateTaskStatus [?r] ''a'' RUNNING 2 ?u = (False, [?r])" by simp
  show ?thesis using pk hit new stale by blast
qed

section \<open>The store does not look at the current status\<close>

text \<open>
  Claim C10. For every id, every current status of its row, every target status and every
  partial update: if the id is in the table and the expected version is the stored one,
  \<open>updateTaskStatus\<close> returns \<^verbatim>\<open>true\<close> and the row has the target status afterwards.
  The current status is not a condition: overwriting it with any other status before
  the call changes neither the result nor the table the call produces.
\<close>

theorem updateTaskStatus_any_transition:
  assumes "pk_ok db" and "select_by_id db i = Some r"
  shows "fst (updateTaskStatus db i st (version r) u)
       \<and> map_option status (select_by_id (snd (updateTaskStatus db i st (version r) u)) i) = Some st
       \<and> updateTaskStatus (map (\<lambda>x. if task_id x = i then x\<lparr>status := s0\<rparr> else x) db)
            i st (version r) u
         = updateTaskStatus db i st (version r) u"
proof -
  from assms(2) have r: "r \<in> set db" "task_id r = i" using select_by_id_Some by auto
  have a: "fst (updateTaskStatus db i st (version r) u)"
    using update_fst r by blast
  have b: "map_option status (select_by_id (snd (updateTaskStatus db i st (version r) u)) i) = Some st"
    using update_select_hit [OF assms(2) refl] by simp
  have same: "x = r" if "x \<in> set db" "task_id x = i" for x
    using assms that by (metis pk_row_by_id option.inject)
  have c1: "filter (where_clause i (version r)) (map (\<lambda>x. if task_id x = i then x\<lparr>status := s0\<rparr> else x) db)
            = map (\<lambda>x. if task_id x = i then x\<lparr>status := s0\<rparr> else x) (filter (where_clause i (version r)) db)"
    by (induction db) (auto simp: where_clause_def)
  have c2: "map (\<lambda>x. if where_clause i (version r) x then set_fields st u x else x)
              (map (\<lambda>x. if task_id x = i then x\<lparr>status := s0\<rparr> else x) db)
          = map (\<lambda>x. if where_clause i (version r) x then set_fields st u x else x) db"
    unfolding map_map
    by (rule map_cong [OF refl]) (auto simp: where_clause_def set_fields_def split: option.split dest: same)
  have c: "updateTaskStatus (map (\<lambda>x. if task_id x = i then x\<lparr>status := s0\<rparr> else x) db)
            i st (version r) u = updateTaskStatus db i st (version r) u"
    unfolding updateTaskStatus_def Let_def c1 c2 by simp
  show ?thesis using a b c by blast
qed

theorem updateTaskStatus_any_transition_witness:
  "pk_ok [\<lparr>task_id = ''a'', task_type = ''X'', duration_ms = 0, dependencies = [], status = COMPLETED,
            created_at = 5, started_at = Some 6, completed_at = Some 7, error = None,
            retry_count = Some 0, version = 2\<rparr>]
   \<and> fst (updateTaskStatus
        [\<lparr>task_id = ''a'', task_type = ''X'', duration_ms = 0, dependencies = [], status = COMPLETED,
            created_at = 5, started_at = Some 6, completed_at = Some 7, error = None,
            retry_count = Some 0, version = 2\<rparr>] ''a'' QUEUED 2 no_updates)
   \<and> map_option status (select_by_id (snd (updateTaskStatus
        [\<lparr>task_id = ''a'', task_type = ''X'', duration_ms = 0, dependencies = [], status = COMPLETED,
            created_at = 5, started_at = Some 6, completed_at = Some 7, error = None,
            retry_count = Some 0, version = 2\<rparr>] ''a'' QUEUED 2 no_updates)) ''a'') = Some QUEUED"
proof -
  let ?r = "\<lparr>task_id = ''a'', task_type = ''X'', duration_ms = 0, dependencies = [], status = COMPLETED,
            created_at = 5, started_at = Some 6, completed_at = Some 7, error = None,
            retry_count = Some 0, version = 2\<rparr>"
  have pk: "pk_ok [?r]" by (simp add: pk_ok_def)
  have sel: "select_by_id [?r] ''a'' = Some ?r" by (simp add: select_by_id_def)
  from updateTaskStatus_any_transition [OF pk sel, of QUEUED no_updates] pk
  show ?thesis by simp
qed

section \<open>Materialising a task (TaskValidator.createTask)\<close>

text \<open>
  \<^verbatim>\<open>createTask\<close> reads the table once (\<^verbatim>\<open>getAllTasks\<close>) and \<^verbatim>\<open>Date.now()\<close> once; the
  time is the argument \<open>now\<close>. \<^verbatim>\<open>taskInput.dependencies || []\<close> is the empty list when
  the field is absent.
\<close>

definition createTask :: "database \<Rightarrow> int \<Rightarrow> TaskInput \<Rightarrow> Task" where
  "createTask db now taskInput =
     (let allTasks = getAllTasks db;
          completedTaskIds = set (map task_id (filter (\<lambda>t. status t = COMPLETED) allTasks));
          deps = (case ti_dependencies taskInput of None \<Rightarrow> [] | Some ds \<Rightarrow> ds);
          st = (if length deps = 0 then QUEUED
                else if list_all (\<lambda>depId. depId \<in> completedTaskIds) deps then QUEUED
                else WAITING)
      in \<lparr>task_id = ti_id taskInput, task_type = ti_type taskInput,
          duration_ms = ti_duration_ms taskInput, dependencies = deps, status = st,
          created_at = now, started_at = None, completed_at = None, error = None,
          retry_count = None\<rparr>)"

lemma status_rowToTask [simp]: "status (rowToTask r) = status r"
  by (simp add: rowToTask_def)

lemma task_id_rowToTask [simp]: "task_id (rowToTask r) = task_id r"
  by (simp add: rowToTask_def)

lemma dependencies_rowToTask [simp]: "dependencies (rowToTask r) = dependencies r"
  by (simp add: rowToTask_def)

lemma created_at_rowToTask [simp]: "created_at (rowToTask r) = created_at r"
  by (simp add: rowToTask_def)

lemma set_getAllTasks [simp]: "set (getAllTasks db) = rowToTask ` set db"
  by (simp add: getAllTasks_def)

lemma completed_ids:
  "pk_ok db \<Longrightarrow>
   d \<in> set (map task_id (filter (\<lambda>t. status t = COMPLETED) (getAllTasks db))) \<longleftrightarrow>
   (\<exists>t. getTask db d = Some t \<and> status t = COMPLETED)"
proof
  assume pk: "pk_ok db"
    and "d \<in> set (map task_id (filter (\<lambda>t. status t = COMPLETED) (getAllTasks db)))"
  then obtain r where "r \<in> set db" "task_id r = d" "status r = COMPLETED" by auto
  with pk have "select_by_id db d = Some r" using pk_row_by_id by blast
  with \<open>status r = COMPLETED\<close> show "\<exists>t. getTask db d = Some t \<and> status t = COMPLETED"
    by (simp add: getTask_def)
next
  assume "\<exists>t. getTask db d = Some t \<and> status t = COMPLETED"
  then obtain r where "select_by_id db d = Some r" "status r = COMPLETED"
    by (auto simp: getTask_def split: option.splits)
  then have "r \<in> set db" "task_id r = d" "status r = COMPLETED"
    using select_by_id_Some by auto
  then show "d \<in> set (map task_id (filter (\<lambda>t. status t = COMPLETED) (getAllTasks db)))"
    by (auto simp: image_iff intro!: bexI [of _ r])
qed

text \<open>
  Claim C5. The task that \<open>createTask\<close> materialises from an input has status QUEUED
  if the list of dependencies (empty when the field is absent) is empty or every listed
  dependency is a task of the snapshot with status COMPLETED, and WAITING otherwise; its
  id, type, duration and dependencies are those of the input.
\<close>

theorem createTask_initial_status:
  assumes "pk_ok db"
  shows "status (createTask db now inp) =
           (if (case ti_dependencies inp of None \<Rightarrow> [] | Some ds \<Rightarrow> ds) = []
               \<or> (\<forall>d \<in> set (case ti_dependencies inp of None \<Rightarrow> [] | Some ds \<Rightarrow> ds).
                     \<exists>t. getTask db d = Some t \<and> status t = COMPLETED)
            then QUEUED else WAITING)
       \<and> task_id (createTask db now inp) = ti_id inp
       \<and> task_type (createTask db now inp) = ti_type inp
       \<and> duration_ms (createTask db now inp) = ti_duration_ms inp
       \<and> dependencies (createTask db now inp) =
           (case ti_dependencies inp of None \<Rightarrow> [] | Some ds \<Rightarrow> ds)"
proof -
  define deps where "deps = (case ti_dependencies inp of None \<Rightarrow> [] | Some ds \<Rightarrow> ds)"
  define C where "C = set (map task_id (filter (\<lambda>t. status t = COMPLETED) (getAllTasks db)))"
  have "list_all (\<lambda>depId. depId \<in> C) deps \<longleftrightarrow>
        (\<forall>d \<in> set deps. \<exists>t. getTask db d = Some t \<and> status t = COMPLETED)"
    unfolding list_all_iff C_def using completed_ids [OF assms] by blast
  then have "status (createTask db now inp) =
           (if deps = [] \<or> (\<forall>d \<in> set deps. \<exists>t. getTask db d = Some t \<and> status t = COMPLETED)
            then QUEUED else WAITING)"
    unfolding createTask_def Let_def C_def [symmetric] deps_def [symmetric] by auto
  moreover have "dependencies (createTask db now inp) = deps"
    unfolding createTask_def Let_def deps_def by simp
  moreover have "task_id (createTask db now inp) = ti_id inp"
    "task_type (createTask db now inp) = ti_type inp"
    "duration_ms (createTask db now inp) = ti_duration_ms inp"
    unfolding createTask_def Let_def by simp_all
  ultimately show ?thesis unfolding deps_def by blast
qed

theorem createTask_initial_status_witness:
  "pk_ok [\<lparr>task_id = ''a'', task_type = ''X'', duration_ms = 0, dependencies = [], status = RUNNING,
            created_at = 5, started_at = Some 6, completed_at = None, error = None,
            retry_count = Some 0, version = 1\<rparr>]
   \<and> status (createTask
        [\<lparr>task_id = ''a'', task_type = ''X'', duration_ms = 0, dependencies = [], status = RUNNING,
            created_at = 5, started_at = Some 6, completed_at = None, error = None,
            retry_count = Some 0, version = 1\<rparr>] 8
        \<lparr>ti_id = ''b'', ti_type = ''Y'', ti_duration_ms = 3, ti_dependencies = Some [''a'']\<rparr>) = WAITING
   \<and> status (createTask
        [\<lparr>task_id = ''a'', task_type = ''X'', duration_ms = 0, dependencies = [], status = RUNNING,
            created_at = 5, started_at = Some 6, completed_at = None, error = None,
            retry_count = Some 0, version = 1\<rparr>] 8
        \<lparr>ti_id = ''c'', ti_type = ''Y'', ti_duration_ms = 3, ti_dependencies = None\<rparr>) = QUEUED"
proof -
  let ?db = "[\<lparr>task_id = ''a'', task_type = ''X'', duration_ms = 0, dependencies = [], status = RUNNING,
            created_at = 5, started_at = Some 6, completed_at = None, error = None,
            retry_count = Some 0, version = 1\<rparr>]"
  have pk: "pk_ok ?db" by (simp add: pk_ok_def)
  show ?thesis
    using pk
      createTask_initial_status [OF pk, of 8
        "\<lparr>ti_id = ''b'', ti_type = ''Y'', ti_duration_ms = 3, ti_dependencies = Some [''a'']\<rparr>"]
      createTask_initial_status [OF pk, of 8
        "\<lparr>ti_id = ''c'', ti_type = ''Y'', ti_duration_ms = 3, ti_dependencies = None\<rparr>"]
    by (simp add: getTask_def select_by_id_def)
qed

section \<open>Recovery (TaskExecutor.recoverOrphanedTasks)\<close>

definition getOrphanedTasks :: "database \<Rightarrow> Task list" where
  "getOrphanedTasks db = getTasksByStatus db RUNNING"

text \<open>
  The object literal that recovery passes as \<^verbatim>\<open>updates\<close> is
  \<^verbatim>\<open>{ started_at: undefined, error: 'Task was interrupted by system restart' }\<close>.
\<close>

definition recovery_updates :: updates where
  "recovery_updates =
     \<lparr>u_started_at = None, u_completed_at = None,
      u_error = Some ''Task was interrupted by system restart'', u_retry_count = None\<rparr>"

text \<open>The body of the loop over the orphaned tasks.\<close>

definition recover_task :: "database \<Rightarrow> Task \<Rightarrow> database" where
  "recover_task db task =
     (case getTaskWithVersion db (task_id task) of
        None \<Rightarrow> db
      | Some (t, v) \<Rightarrow> snd (updateTaskStatus db (task_id task) QUEUED v recovery_updates))"

definition recoverOrphanedTasks :: "database \<Rightarrow> database" where
  "recoverOrphanedTasks db =
     (let orphanedTasks = getOrphanedTasks db
      in if length orphanedTasks > 0 then foldl recover_task db orphanedTasks else db)"

lemma recover_task_map:
  assumes "pk_ok db"
  shows "recover_task db t =
         map (\<lambda>r. if task_id r = task_id t then set_fields QUEUED recovery_updates r else r) db"
proof (cases "select_by_id db (task_id t)")
  case None
  then have "\<forall>r\<in>set db. task_id r \<noteq> task_id t"
    by (metis image_eqI select_by_id_None)
  then have "map (\<lambda>r. if task_id r = task_id t then set_fields QUEUED recovery_updates r else r) db = db"
    by (intro map_idI) auto
  with None show ?thesis by (simp add: recover_task_def getTaskWithVersion_def)
next
  case (Some r0)
  have same: "x = r0" if "x \<in> set db" "task_id x = task_id t" for x
    using assms that Some by (metis pk_row_by_id option.inject)
  have "map (\<lambda>r. if where_clause (task_id t) (version r0) r
                  then set_fields QUEUED recovery_updates r else r) db
      = map (\<lambda>r. if task_id r = task_id t then set_fields QUEUED recovery_updates r else r) db"
    by (rule map_cong [OF refl]) (auto simp: where_clause_def dest: same)
  with Some show ?thesis
    by (simp add: recover_task_def getTaskWithVersion_def updateTaskStatus_def Let_def)
qed

lemma recover_task_pk: "pk_ok db \<Longrightarrow> pk_ok (recover_task db t)"
  by (simp add: recover_task_map pk_ok_map)

lemma recover_fold_map:
  "pk_ok db \<Longrightarrow> distinct (map task_id ts) \<Longrightarrow>
   foldl recover_task db ts =
   map (\<lambda>r. if task_id r \<in> task_id ` set ts then set_fields QUEUED recovery_updates r else r) db"
proof (induction ts arbitrary: db)
  case Nil
  then show ?case by (simp add: map_idI)
next
  case (Cons t ts)
  have pk': "pk_ok (recover_task db t)" using Cons.prems(1) by (rule recover_task_pk)
  have d: "distinct (map task_id ts)" "task_id t \<notin> task_id ` set ts"
    using Cons.prems(2) by auto
  show ?case
    apply (simp only: foldl_Cons Cons.IH [OF pk' d(1)])
    apply (simp only: recover_task_map [OF Cons.prems(1)] map_map)
    apply (rule map_cong [OF refl])
    using d(2) apply auto
    done
qed

lemma orphan_ids_distinct: "pk_ok db \<Longrightarrow> distinct (map task_id (getOrphanedTasks db))"
  unfolding getOrphanedTasks_def getTasksByStatus_def pk_ok_def
  by (simp add: comp_def distinct_map inj_on_def)

lemma orphan_ids:
  "task_id ` set (getOrphanedTasks db) = task_id ` {r \<in> set db. status r = RUNNING}"
  unfolding getOrphanedTasks_def getTasksByStatus_def by (auto simp: image_iff)

lemma recoverOrphanedTasks_map:
  assumes "pk_ok db"
  shows "recoverOrphanedTasks db =
         map (\<lambda>r. if status r = RUNNING then set_fields QUEUED recovery_updates r else r) db"
proof -
  have same: "status r = RUNNING" if "r \<in> set db" "r' \<in> set db" "task_id r = task_id r'" "status r' = RUNNING" for r r'
    using assms that by (metis pk_row_by_id option.inject)
  have m: "map (\<lambda>r. if task_id r \<in> task_id ` set (getOrphanedTasks db)
                    then set_fields QUEUED recovery_updates r else r) db
         = map (\<lambda>r. if status r = RUNNING then set_fields QUEUED recovery_updates r else r) db"
    by (rule map_cong [OF refl]) (auto simp: orphan_ids dest: same)
  show ?thesis
  proof (cases "getOrphanedTasks db = []")
    case True
    then have "recoverOrphanedTasks db = db" by (simp add: recoverOrphanedTasks_def)
    moreover from True have "foldl recover_task db (getOrphanedTasks db) = db" by simp
    ultimately show ?thesis
      using recover_fold_map [OF assms orphan_ids_distinct [OF assms]] m by simp
  next
    case False
    then have "recoverOrphanedTasks db = foldl recover_task db (getOrphanedTasks db)"
      by (simp add: recoverOrphanedTasks_def)
    then show ?thesis
      using recover_fold_map [OF assms orphan_ids_distinct [OF assms]] m by simp
  qed
qed

lemma recover_no_running:
  "pk_ok db \<Longrightarrow> \<forall>r \<in> set (recoverOrphanedTasks db). status r \<noteq> RUNNING"
  by (auto simp: recoverOrphanedTasks_map)

lemma recover_pk: "pk_ok db \<Longrightarrow> pk_ok (recoverOrphanedTasks db)"
  by (simp add: recoverOrphanedTasks_map pk_ok_map)

text \<open>
  Claim C9. On every table that satisfies its primary key, recovery run twice gives the
  table that recovery run once gives: after the first run no row is RUNNING, so the second
  run finds no orphaned task and writes nothing.
\<close>

theorem recovery_idempotent:
  assumes "pk_ok db"
  shows "recoverOrphanedTasks (recoverOrphanedTasks db) = recoverOrphanedTasks db
       \<and> getOrphanedTasks (recoverOrphanedTasks db) = []"
proof -
  have "filter (\<lambda>r. status r = RUNNING) (recoverOrphanedTasks db) = []"
    using recover_no_running [OF assms] by (simp add: filter_empty_conv)
  then have e: "getOrphanedTasks (recoverOrphanedTasks db) = []"
    by (simp add: getOrphanedTasks_def getTasksByStatus_def)
  then show ?thesis by (simp add: recoverOrphanedTasks_def)
qed

theorem recovery_idempotent_witness:
  "pk_ok [\<lparr>task_id = ''a'', task_type = ''X'', duration_ms = 0, dependencies = [], status = RUNNING,
            created_at = 5, started_at = Some 1000, completed_at = None, error = None,
            retry_count = Some 0, version = 1\<rparr>]
   \<and> recoverOrphanedTasks (recoverOrphanedTasks
        [\<lparr>task_id = ''a'', task_type = ''X'', duration_ms = 0, dependencies = [], status = RUNNING,
            created_at = 5, started_at = Some 1000, completed_at = None, error = None,
            retry_count = Some 0, version = 1\<rparr>])
     = recoverOrphanedTasks
        [\<lparr>task_id = ''a'', task_type = ''X'', duration_ms = 0, dependencies = [], status = RUNNING,
            created_at = 5, started_at = Some 1000, completed_at = None, error = None,
            retry_count = Some 0, version = 1\<rparr>]"
proof -
  let ?db = "[\<lparr>task_id = ''a'', task_type = ''X'', duration_ms = 0, dependencies = [], status = RUNNING,
            created_at = 5, started_at = Some 1000, completed_at = None, error = None,
            retry_count = Some 0, version = 1\<rparr>]"
  have pk: "pk_ok ?db" by (simp add: pk_ok_def)
  show ?thesis using pk recovery_idempotent [OF pk] by simp
qed

text \<open>
  Claim C4 on the code. Recovery passes \<^verbatim>\<open>started_at: undefined\<close>, and
  \<open>updateTaskStatus\<close> writes a column only when its key is not \<^verbatim>\<open>undefined\<close>: the
  column \<open>started_at\<close> is left as it was. A task found RUNNING with \<open>started_at = 1000\<close>
  is QUEUED after recovery, carries the interruption message, and still has
  \<open>started_at = 1000\<close>.
\<close>

theorem recovery_keeps_started_at:
  "getTask (recoverOrphanedTasks
        [\<lparr>task_id = ''a'', task_type = ''X'', duration_ms = 0, dependencies = [], status = RUNNING,
            created_at = 5, started_at = Some 1000, completed_at = None, error = None,
            retry_count = Some 0, version = 1\<rparr>]) ''a''
   = Some \<lparr>task_id = ''a'', task_type = ''X'', duration_ms = 0, dependencies = [], status = QUEUED,
            created_at = 5, started_at = Some 1000, completed_at = None,
            error = Some ''Task was interrupted by system restart'', retry_count = Some 0\<rparr>"
  by (simp add: recoverOrphanedTasks_def getOrphanedTasks_def getTasksByStatus_def
      recover_task_def getTaskWithVersion_def select_by_id_def updateTaskStatus_def
      where_clause_def set_fields_def recovery_updates_def getTask_def rowToTask_def
      falsy_num_def falsy_str_def Let_def)

section \<open>Validation (TaskValidator.validateTaskInput, detectCycle, hasCycle)\<close>

text \<open>
  The result \<^verbatim>\<open>{ valid: boolean; error?: string }\<close> of the validator.
\<close>

datatype validation = Valid | Invalid string

text \<open>
  The dependency graph is a JavaScript \<^verbatim>\<open>Map<string, string[]>\<close>: an association list
  whose \<^verbatim>\<open>set\<close> replaces the value of a key that is present and appends a new key
  (\<open>AList.update\<close>), and whose \<^verbatim>\<open>get\<close> is \<open>map_of\<close>.
\<close>

type_synonym graph = "(string \<times> string list) list"

text \<open>
  \<^verbatim>\<open>hasCycle\<close> is a depth-first search for \<open>target\<close>; the set \<open>visited\<close> is mutated in
  place by the source, so the model returns it with the answer. \<open>hasCycle_deps\<close> is the
  loop \<^verbatim>\<open>for (const dep of dependencies)\<close> with its early \<^verbatim>\<open>return true\<close>.

  The source recurses: every node on the path of the search holds one activation of
  \<^verbatim>\<open>hasCycle\<close> on the call stack, and a call for which the stack has no room throws
  \<^verbatim>\<open>RangeError\<close>, which nothing in the validator catches. \<open>frames\<close> is the number of
  nested activations of \<^verbatim>\<open>hasCycle\<close> the stack still has room for; it is a quantity of
  the JavaScript engine, not of the source, and a parameter here.
\<close>

function hasCycle ::
    "nat \<Rightarrow> string \<Rightarrow> string \<Rightarrow> graph \<Rightarrow> string set \<Rightarrow> js_error + bool \<times> string set"
  and hasCycle_deps ::
    "nat \<Rightarrow> string list \<Rightarrow> string \<Rightarrow> graph \<Rightarrow> string set \<Rightarrow> js_error + bool \<times> string set"
where
  "hasCycle frames current target g visited =
     (if frames = 0 then Inl RangeError
      else if current = target then Inr (True, visited)
      else if current \<in> visited then Inr (False, visited)
      else (case map_of g current of
              None \<Rightarrow> Inr (False, insert current visited)
            | Some deps \<Rightarrow> hasCycle_deps (frames - 1) deps target g (insert current visited)))"
| "hasCycle_deps frames [] target g visited = Inr (False, visited)"
| "hasCycle_deps frames (dep # deps) target g visited =
     (case hasCycle frames dep target g visited of
        Inl e \<Rightarrow> Inl e
      | Inr (True, visited') \<Rightarrow> Inr (True, visited')
      | Inr (False, visited') \<Rightarrow> hasCycle_deps frames deps target g visited')"
  by pat_completeness auto
termination
  by (relation "inv_image (less_than <*lex*> less_than)
    (\<lambda>x. case x of
       Inl (frames, c, t, g, v) \<Rightarrow> (frames, 0)
     | Inr (frames, ds, t, g, v) \<Rightarrow> (frames, Suc (length ds)))") auto

declare hasCycle.simps [simp del]
declare hasCycle_deps.simps [simp del]

text \<open>
  \<^verbatim>\<open>detectCycle\<close>: the graph of all stored tasks, then the entry of the new task, then
  one search per new dependency, each with a fresh \<^verbatim>\<open>new Set()\<close>.
\<close>

definition build_graph :: "Task list \<Rightarrow> graph" where
  "build_graph allTasks = foldl (\<lambda>g task. AList.update (task_id task) (dependencies task) g) [] allTasks"

fun detectCycle_deps :: "nat \<Rightarrow> string \<Rightarrow> graph \<Rightarrow> string list \<Rightarrow> js_error + validation" where
  "detectCycle_deps frames newTaskId g [] = Inr Valid"
| "detectCycle_deps frames newTaskId g (depId # rest) =
     (case hasCycle frames depId newTaskId g {} of
        Inl e \<Rightarrow> Inl e
      | Inr (found, visited) \<Rightarrow>
          if found
          then Inr (Invalid (''Adding task '' @ newTaskId @
                             '' would create a circular dependency with '' @ depId))
          else detectCycle_deps frames newTaskId g rest)"

definition detectCycle :: "nat \<Rightarrow> database \<Rightarrow> string \<Rightarrow> string list \<Rightarrow> js_error + validation" where
  "detectCycle frames db newTaskId newDependencies =
     (let graph = AList.update newTaskId newDependencies (build_graph (getAllTasks db))
      in detectCycle_deps frames newTaskId graph newDependencies)"

text \<open>
  \<^verbatim>\<open>depId.trim() === ''\<close>: the string consists of white space and line terminators of
  ECMAScript only. A string is the sequence of the bytes of its UTF-8 encoding, so a code
  point is one to three bytes here: U+0009 to U+000D and U+0020 (one byte); U+00A0 (two
  bytes); U+1680, U+2000 to U+200A, U+2028, U+2029, U+202F, U+205F, U+3000 and U+FEFF
  (three bytes).
\<close>

definition white_space_3 :: "(char \<times> char \<times> char) list" where
  "white_space_3 =
     [(CHR 0xE1, CHR 0x9A, CHR 0x80),
      (CHR 0xE2, CHR 0x80, CHR 0x80), (CHR 0xE2, CHR 0x80, CHR 0x81),
      (CHR 0xE2, CHR 0x80, CHR 0x82), (CHR 0xE2, CHR 0x80, CHR 0x83),
      (CHR 0xE2, CHR 0x80, CHR 0x84), (CHR 0xE2, CHR 0x80, CHR 0x85),
      (CHR 0xE2, CHR 0x80, CHR 0x86), (CHR 0xE2, CHR 0x80, CHR 0x87),
      (CHR 0xE2, CHR 0x80, CHR 0x88), (CHR 0xE2, CHR 0x80, CHR 0x89),
      (CHR 0xE2, CHR 0x80, CHR 0x8A),
      (CHR 0xE2, CHR 0x80, CHR 0xA8), (CHR 0xE2, CHR 0x80, CHR 0xA9),
      (CHR 0xE2, CHR 0x80, CHR 0xAF), (CHR 0xE2, CHR 0x81, CHR 0x9F),
      (CHR 0xE3, CHR 0x80, CHR 0x80), (CHR 0xEF, CHR 0xBB, CHR 0xBF)]"

fun is_blank :: "string \<Rightarrow> bool" where
  "is_blank [] = True"
| "is_blank (c # cs) =
     (if c \<in> set [CHR 0x09, CHR 0x0A, CHR 0x0B, CHR 0x0C, CHR 0x0D, CHR 0x20] then is_blank cs
      else case cs of
             [] \<Rightarrow> False
           | c2 # cs2 \<Rightarrow>
               if c = CHR 0xC2 \<and> c2 = CHR 0xA0 then is_blank cs2
               else (case cs2 of
                       [] \<Rightarrow> False
                     | c3 # cs3 \<Rightarrow> if (c, c2, c3) \<in> set white_space_3 then is_blank cs3 else False))"

text \<open>The loop of \<^verbatim>\<open>validateTaskInput\<close> over the dependencies.\<close>

fun check_dependencies :: "database \<Rightarrow> string \<Rightarrow> string list \<Rightarrow> validation" where
  "check_dependencies db taskId [] = Valid"
| "check_dependencies db taskId (depId # rest) =
     (if depId = [] \<or> is_blank depId then Invalid ''Dependency IDs must be non-empty strings''
      else if depId = taskId then Invalid ''Task cannot depend on itself''
      else if getTask db depId = None
        then Invalid (''Dependency '' @ [CHR 0x27] @ depId @ [CHR 0x27] @
                      '' does not exist. Please submit dependencies before dependent tasks.'')
      else check_dependencies db taskId rest)"

text \<open>
  \<^verbatim>\<open>validateTaskInput\<close> on an input of the static type \<^verbatim>\<open>TaskInput\<close>: the \<^verbatim>\<open>typeof\<close>
  tests hold by the type, \<^verbatim>\<open>!taskInput.id\<close> is the test for the empty string. The
  function returns its verdict or throws what the cycle check throws.
\<close>

definition validateTaskInput :: "nat \<Rightarrow> database \<Rightarrow> TaskInput \<Rightarrow> js_error + validation" where
  "validateTaskInput frames db taskInput =
     (if ti_id taskInput = [] then Inr (Invalid ''Task ID is required and must be a string'')
      else if ti_type taskInput = [] then Inr (Invalid ''Task type is required and must be a string'')
      else if ti_duration_ms taskInput < 0 then Inr (Invalid ''duration_ms must be a non-negative number'')
      else if getTask db (ti_id taskInput) \<noteq> None
        then Inr (Invalid (''Task with ID '' @ ti_id taskInput @ '' already exists''))
      else let deps = (case ti_dependencies taskInput of None \<Rightarrow> [] | Some ds \<Rightarrow> ds) in
        (case check_dependencies db (ti_id taskInput) deps of
           Invalid e \<Rightarrow> Inr (Invalid e)
         | Valid \<Rightarrow>
            (case detectCycle frames db (ti_id taskInput) deps of
               Inl e \<Rightarrow> Inl e
             | Inr (Invalid e) \<Rightarrow> Inr (Invalid e)
             | Inr Valid \<Rightarrow> Inr Valid)))"

text \<open>The dependency edges of the stored tasks, and the edges a new task would add.\<close>

definition dep_edges :: "database \<Rightarrow> (string \<times> string) set" where
  "dep_edges db = {(a, b). \<exists>r \<in> set db. task_id r = a \<and> b \<in> set (dependencies r)}"

definition new_edges :: "string \<Rightarrow> string list \<Rightarrow> (string \<times> string) set" where
  "new_edges newTaskId deps = {(a, b). a = newTaskId \<and> b \<in> set deps}"

text \<open>Adding the edges \<open>N\<close> to the graph \<open>E\<close> creates a cycle: some node lies on a
  cycle of \<open>E \<union> N\<close> and on none of \<open>E\<close>.\<close>

definition creates_cycle :: "(string \<times> string) set \<Rightarrow> (string \<times> string) set \<Rightarrow> bool" where
  "creates_cycle E N \<longleftrightarrow> (\<exists>x. (x, x) \<in> (E \<union> N)\<^sup>+ \<and> (x, x) \<notin> E\<^sup>+)"

definition graph_edges :: "graph \<Rightarrow> (string \<times> string) set" where
  "graph_edges g = {(a, b). \<exists>ds. map_of g a = Some ds \<and> b \<in> set ds}"

subsection \<open>Correctness of the search\<close>

lemma hasCycle_sound:
  "hasCycle n c t g v = Inr (True, v') \<Longrightarrow> (c, t) \<in> (graph_edges g)\<^sup>*"
  "hasCycle_deps n ds t g v = Inr (True, v') \<Longrightarrow> \<exists>d \<in> set ds. (d, t) \<in> (graph_edges g)\<^sup>*"
proof (induction n c t g v and n ds t g v arbitrary: v' and v' rule: hasCycle_hasCycle_deps.induct)
  case (1 frames current target g visited)
  show ?case
  proof (cases "current = target")
    case True
    then show ?thesis by simp
  next
    case False
    with "1.prems" obtain deps where d: "frames \<noteq> 0" "current \<notin> visited" "map_of g current = Some deps"
      and f: "hasCycle_deps (frames - 1) deps target g (insert current visited) = Inr (True, v')"
      by (subst (asm) hasCycle.simps) (auto split: if_splits option.splits)
    from "1.IH" [OF d(1) False d(2) d(3) f] obtain x where "x \<in> set deps" "(x, target) \<in> (graph_edges g)\<^sup>*"
      by blast
    moreover have "(current, x) \<in> graph_edges g"
      using d(3) \<open>x \<in> set deps\<close> by (auto simp: graph_edges_def)
    ultimately show ?thesis by (meson converse_rtrancl_into_rtrancl)
  qed
next
  case (2 frames target g visited)
  then show ?case by (simp add: hasCycle_deps.simps(1))
next
  case (3 frames dep deps target g visited)
  from "3.prems" obtain b v1 where r: "hasCycle frames dep target g visited = Inr (b, v1)"
    by (subst (asm) hasCycle_deps.simps(2)) (auto split: sum.splits)
  show ?case
  proof (cases b)
    case True
    with r "3.IH"(1) [of v1] show ?thesis by simp
  next
    case False
    with r "3.prems" have "hasCycle_deps frames deps target g v1 = Inr (True, v')"
      by (simp add: hasCycle_deps.simps(2))
    moreover from False have "b = False" by simp
    ultimately show ?thesis using "3.IH"(2) [OF r] by auto
  qed
qed

definition dfs_post :: "string \<Rightarrow> graph \<Rightarrow> string set \<Rightarrow> string set \<Rightarrow> string set \<Rightarrow> bool" where
  "dfs_post t g X v v' \<longleftrightarrow>
     X \<subseteq> v' \<and> v \<subseteq> v' \<and> t \<notin> v' \<and>
     (\<forall>x \<in> v' - v. \<forall>y. (x, y) \<in> graph_edges g \<longrightarrow> y \<in> v')"

lemma dfs_post_node:
  assumes "dfs_post t g D (insert c v) v'" and "\<And>y. (c, y) \<in> graph_edges g \<Longrightarrow> y \<in> D"
  shows "dfs_post t g {c} v v'"
proof -
  from assms(1) have a: "D \<subseteq> v'" "insert c v \<subseteq> v'" "t \<notin> v'"
    and cl: "\<And>x y. x \<in> v' \<Longrightarrow> x \<notin> insert c v \<Longrightarrow> (x, y) \<in> graph_edges g \<Longrightarrow> y \<in> v'"
    unfolding dfs_post_def by blast+
  have "y \<in> v'" if "x \<in> v'" "x \<notin> v" "(x, y) \<in> graph_edges g" for x y
  proof (cases "x = c")
    case True
    with that assms(2) a(1) show ?thesis by blast
  next
    case False
    with that cl show ?thesis by blast
  qed
  with a show ?thesis unfolding dfs_post_def by blast
qed

lemma dfs_post_seq:
  assumes "dfs_post t g {d} v v1" and "dfs_post t g D v1 v'"
  shows "dfs_post t g (insert d D) v v'"
proof -
  from assms(1) have a: "d \<in> v1" "v \<subseteq> v1"
    and cl1: "\<And>x y. x \<in> v1 \<Longrightarrow> x \<notin> v \<Longrightarrow> (x, y) \<in> graph_edges g \<Longrightarrow> y \<in> v1"
    unfolding dfs_post_def by blast+
  from assms(2) have b: "D \<subseteq> v'" "v1 \<subseteq> v'" "t \<notin> v'"
    and cl2: "\<And>x y. x \<in> v' \<Longrightarrow> x \<notin> v1 \<Longrightarrow> (x, y) \<in> graph_edges g \<Longrightarrow> y \<in> v'"
    unfolding dfs_post_def by blast+
  have "y \<in> v'" if "x \<in> v'" "x \<notin> v" "(x, y) \<in> graph_edges g" for x y
  proof (cases "x \<in> v1")
    case True
    with that cl1 b(2) show ?thesis by blast
  next
    case False
    with that cl2 show ?thesis by blast
  qed
  with a b show ?thesis unfolding dfs_post_def by blast
qed


lemma hasCycle_complete_aux:
  "hasCycle n c t g v = Inr (False, v') \<Longrightarrow> t \<notin> v \<Longrightarrow> dfs_post t g {c} v v'"
  "hasCycle_deps n ds t g v = Inr (False, v') \<Longrightarrow> t \<notin> v \<Longrightarrow> dfs_post t g (set ds) v v'"
proof (induction n c t g v and n ds t g v arbitrary: v' and v' rule: hasCycle_hasCycle_deps.induct)
  case (1 frames current target g visited)
  from "1.prems"(1) have fr: "frames \<noteq> 0" and ne: "current \<noteq> target"
    by (subst (asm) hasCycle.simps, auto split: if_splits)+
  show ?case
  proof (cases "current \<in> visited")
    case True
    with fr ne "1.prems" show ?thesis
      by (subst (asm) hasCycle.simps) (auto simp: dfs_post_def)
  next
    case False
    show ?thesis
    proof (cases "map_of g current")
      case None
      with fr ne False "1.prems" show ?thesis
        by (subst (asm) hasCycle.simps) (auto simp: dfs_post_def graph_edges_def)
    next
      case (Some deps)
      have eq: "hasCycle frames current target g visited =
                hasCycle_deps (frames - 1) deps target g (insert current visited)"
        using fr ne False Some by (subst hasCycle.simps) simp
      with "1.prems" have r: "hasCycle_deps (frames - 1) deps target g (insert current visited)
                              = Inr (False, v')" by simp
      have "dfs_post target g (set deps) (insert current visited) v'"
        using "1.IH" [OF fr ne False Some r] "1.prems"(2) ne by simp
      moreover have "y \<in> set deps" if "(current, y) \<in> graph_edges g" for y
        using that Some by (simp add: graph_edges_def)
      ultimately show ?thesis by (rule dfs_post_node)
    qed
  qed
next
  case (2 frames target g visited)
  then show ?case by (simp add: hasCycle_deps.simps(1) dfs_post_def)
next
  case (3 frames dep deps target g visited)
  from "3.prems"(1) obtain b v1 where r: "hasCycle frames dep target g visited = Inr (b, v1)"
    by (subst (asm) hasCycle_deps.simps(2)) (auto split: sum.splits)
  from r "3.prems"(1) have b: "b = False"
    by (cases b) (simp_all add: hasCycle_deps.simps(2))
  with r "3.prems"(1) have eq: "hasCycle_deps frames deps target g v1 = Inr (False, v')"
    by (simp add: hasCycle_deps.simps(2))
  from r b "3.IH"(1) [of v1] "3.prems"(2) have p1: "dfs_post target g {dep} visited v1" by simp
  then have t1: "target \<notin> v1" by (simp add: dfs_post_def)
  from "3.IH"(2) [OF r refl b eq t1] have p2: "dfs_post target g (set deps) v1 v'" .
  from dfs_post_seq [OF p1 p2] show ?case by simp
qed

lemma hasCycle_complete:
  assumes "hasCycle n c t g {} = Inr (False, V)"
  shows "(c, t) \<notin> (graph_edges g)\<^sup>*"
proof
  assume reach: "(c, t) \<in> (graph_edges g)\<^sup>*"
  from hasCycle_complete_aux(1) [OF assms] have p: "dfs_post t g {c} {} V" by simp
  from reach have "t \<in> V"
  proof (induction rule: rtrancl_induct)
    case base
    with p show ?case by (simp add: dfs_post_def)
  next
    case (step y z)
    with p show ?case by (auto simp: dfs_post_def)
  qed
  with p show False by (simp add: dfs_post_def)
qed

lemma hasCycle_reach:
  assumes "hasCycle n c t g {} = Inr (b, V)"
  shows "b \<longleftrightarrow> (c, t) \<in> (graph_edges g)\<^sup>*"
proof (cases b)
  case True
  with assms show ?thesis using hasCycle_sound(1) [of n c t g "{}" V] by simp
next
  case False
  with assms show ?thesis using hasCycle_complete [of n c t g V] by simp
qed

subsection \<open>A stack with room for every task holds the search\<close>

lemma hasCycle_visited_mono:
  "hasCycle n c t g v = Inr (b, v') \<Longrightarrow> v \<subseteq> v'"
  "hasCycle_deps n ds t g v = Inr (b, v') \<Longrightarrow> v \<subseteq> v'"
proof (induction n c t g v and n ds t g v arbitrary: b v' and b v' rule: hasCycle_hasCycle_deps.induct)
  case (1 frames current target g visited)
  from "1.prems" have fr: "frames \<noteq> 0"
    by (subst (asm) hasCycle.simps) (auto split: if_splits)
  show ?case
  proof (cases "current = target \<or> current \<in> visited \<or> map_of g current = None")
    case True
    with "1.prems" fr show ?thesis
      by (subst (asm) hasCycle.simps) (auto split: if_splits)
  next
    case False
    then obtain deps where d: "current \<noteq> target" "current \<notin> visited" "map_of g current = Some deps"
      by auto
    with "1.prems" fr have "hasCycle_deps (frames - 1) deps target g (insert current visited) = Inr (b, v')"
      by (subst (asm) hasCycle.simps) simp
    from "1.IH" [OF fr d this] show ?thesis by simp
  qed
next
  case (2 frames target g visited)
  then show ?case by (simp add: hasCycle_deps.simps(1))
next
  case (3 frames dep deps target g visited)
  from "3.prems" obtain b1 v1 where r: "hasCycle frames dep target g visited = Inr (b1, v1)"
    by (subst (asm) hasCycle_deps.simps(2)) (auto split: sum.splits)
  from "3.IH"(1) [OF r] have m: "visited \<subseteq> v1" .
  show ?case
  proof (cases b1)
    case True
    with r "3.prems" m show ?thesis by (simp add: hasCycle_deps.simps(2))
  next
    case False
    with r "3.prems" have e: "hasCycle_deps frames deps target g v1 = Inr (b, v')"
      by (simp add: hasCycle_deps.simps(2))
    from False have "b1 = False" by simp
    from "3.IH"(2) [OF r refl this e] m show ?thesis by simp
  qed
qed

lemma hasCycle_enough_frames:
  "card (fst ` set g - v) < n \<Longrightarrow> \<exists>r. hasCycle n c t g v = Inr r"
  "card (fst ` set g - v) < n \<Longrightarrow> \<exists>r. hasCycle_deps n ds t g v = Inr r"
proof (induction n c t g v and n ds t g v rule: hasCycle_hasCycle_deps.induct)
  case (1 frames current target g visited)
  from "1.prems" have fr: "frames \<noteq> 0" by simp
  show ?case
  proof (cases "current = target \<or> current \<in> visited \<or> map_of g current = None")
    case True
    with fr show ?thesis by (subst hasCycle.simps) force
  next
    case False
    then obtain deps where d: "current \<noteq> target" "current \<notin> visited" "map_of g current = Some deps"
      by auto
    from d(2,3) have "current \<in> fst ` set g - visited"
      by (auto dest: map_of_SomeD simp: image_iff intro!: bexI)
    then have "card (fst ` set g - insert current visited) < card (fst ` set g - visited)"
      by (intro psubset_card_mono) auto
    with "1.prems" have "card (fst ` set g - insert current visited) < frames - 1" by simp
    from "1.IH" [OF fr d this] fr d show ?thesis by (subst hasCycle.simps) simp
  qed
next
  case (2 frames target g visited)
  then show ?case by (auto simp: hasCycle_deps.simps(1))
next
  case (3 frames dep deps target g visited)
  from "3.IH"(1) [OF "3.prems"] obtain b v1 where r: "hasCycle frames dep target g visited = Inr (b, v1)"
    by auto
  show ?case
  proof (cases b)
    case True
    with r show ?thesis by (auto simp: hasCycle_deps.simps(2))
  next
    case False
    from hasCycle_visited_mono(1) [OF r] have "card (fst ` set g - v1) \<le> card (fst ` set g - visited)"
      by (intro card_mono) auto
    with "3.prems" have c: "card (fst ` set g - v1) < frames" by simp
    from False have "b = False" by simp
    from "3.IH"(2) [OF r refl this c] r False show ?thesis by (simp add: hasCycle_deps.simps(2))
  qed
qed

lemma detectCycle_deps_verdict:
  assumes "card (fst ` set g) < n"
  shows "(detectCycle_deps n t g ds = Inr Valid \<or> (\<exists>e. detectCycle_deps n t g ds = Inr (Invalid e)))
       \<and> (detectCycle_deps n t g ds = Inr Valid \<longleftrightarrow> \<not> (\<exists>d \<in> set ds. (d, t) \<in> (graph_edges g)\<^sup>*))"
proof (induction ds)
  case Nil
  then show ?case by simp
next
  case (Cons d ds)
  from hasCycle_enough_frames(1) [of g "{}" n d t] assms
  obtain b V where r: "hasCycle n d t g {} = Inr (b, V)" by auto
  from hasCycle_reach [OF r] have b: "b \<longleftrightarrow> (d, t) \<in> (graph_edges g)\<^sup>*" .
  show ?case
  proof (cases b)
    case True
    with r b show ?thesis by auto
  next
    case False
    with r b Cons.IH show ?thesis by auto
  qed
qed

subsection \<open>The graph that detectCycle builds\<close>

lemma map_of_build_graph:
  "distinct (map task_id ts) \<Longrightarrow>
   map_of (build_graph ts) a = Some ds \<longleftrightarrow> (\<exists>t \<in> set ts. task_id t = a \<and> dependencies t = ds)"
proof (induction ts arbitrary: ds rule: rev_induct)
  case Nil
  then show ?case by (simp add: build_graph_def)
next
  case (snoc x xs)
  then have d: "distinct (map task_id xs)" and nx: "task_id x \<notin> task_id ` set xs" by auto
  have b: "build_graph (xs @ [x]) = AList.update (task_id x) (dependencies x) (build_graph xs)"
    by (simp add: build_graph_def)
  show ?case
  proof (cases "a = task_id x")
    case True
    have "(\<exists>t\<in>set (xs @ [x]). task_id t = a \<and> dependencies t = ds) \<longleftrightarrow> dependencies x = ds"
      using True nx by (auto simp: image_iff)
    moreover have "map_of (AList.update (task_id x) (dependencies x) (build_graph xs)) a = Some ds
        \<longleftrightarrow> dependencies x = ds"
      using True by (simp add: update_conv')
    ultimately show ?thesis unfolding b by simp
  next
    case False
    then show ?thesis unfolding b using snoc.IH [OF d] by (auto simp: update_conv')
  qed
qed

lemma getAllTasks_ids_distinct: "pk_ok db \<Longrightarrow> distinct (map task_id (getAllTasks db))"
  unfolding getAllTasks_def pk_ok_def by (simp add: comp_def distinct_map inj_on_def)

lemma graph_edges_store:
  assumes "pk_ok db"
  shows "graph_edges (build_graph (getAllTasks db)) = dep_edges db"
  unfolding graph_edges_def dep_edges_def
  using map_of_build_graph [OF getAllTasks_ids_distinct [OF assms]]
  by (auto simp: image_iff)

lemma graph_edges_update:
  "graph_edges (AList.update n ds g) = {(a, b) \<in> graph_edges g. a \<noteq> n} \<union> new_edges n ds"
  unfolding graph_edges_def new_edges_def by (auto simp: update_conv' split: if_splits)

lemma no_edges_from_absent:
  "getTask db n = None \<Longrightarrow> (n, b) \<notin> dep_edges db"
  by (auto simp: getTask_def dep_edges_def select_by_id_None split: option.splits)

lemma detect_graph_edges:
  assumes "pk_ok db" and "getTask db n = None"
  shows "graph_edges (AList.update n ds (build_graph (getAllTasks db))) = dep_edges db \<union> new_edges n ds"
  unfolding graph_edges_update graph_edges_store [OF assms(1)]
  using no_edges_from_absent [OF assms(2)] by auto

subsection \<open>Paths that end in the new task\<close>

lemma reach_drop_new_edges:
  assumes "(a, n) \<in> (E \<union> new_edges n ds)\<^sup>*"
  shows "(a, n) \<in> E\<^sup>*"
  using assms
proof (induction rule: converse_rtrancl_induct)
  case base
  then show ?case by simp
next
  case (step y z)
  show ?case
  proof (cases "(y, z) \<in> E")
    case True
    with step.IH show ?thesis by (meson converse_rtrancl_into_rtrancl)
  next
    case False
    with step.hyps(1) have "y = n" by (simp add: new_edges_def)
    then show ?thesis by simp
  qed
qed

lemma trancl_through_new:
  assumes "(a, b) \<in> (E \<union> new_edges n ds)\<^sup>+"
  shows "(a, b) \<in> E\<^sup>+ \<or> ((a, n) \<in> (E \<union> new_edges n ds)\<^sup>* \<and> (n, b) \<in> (E \<union> new_edges n ds)\<^sup>+)"
  using assms
proof (induction rule: trancl_induct)
  case (base y)
  show ?case
  proof (cases "(a, y) \<in> E")
    case True
    then show ?thesis by blast
  next
    case False
    with base have "a = n" by (simp add: new_edges_def)
    with base show ?thesis by blast
  qed
next
  case (step y z)
  show ?case
  proof (cases "(a, y) \<in> E\<^sup>+ \<and> (y, z) \<in> E")
    case True
    then show ?thesis by (meson trancl.trancl_into_trancl)
  next
    case False
    show ?thesis
    proof (cases "(a, y) \<in> E\<^sup>+")
      case True
      with False step.hyps(2) have "y = n" by (simp add: new_edges_def)
      moreover from step.hyps(1) have "(a, y) \<in> (E \<union> new_edges n ds)\<^sup>*" by simp
      ultimately show ?thesis using step.hyps(2) by blast
    next
      case False
      with step.IH have "(a, n) \<in> (E \<union> new_edges n ds)\<^sup>*" "(n, y) \<in> (E \<union> new_edges n ds)\<^sup>+"
        by blast+
      with step.hyps(2) show ?thesis by (meson trancl.trancl_into_trancl)
    qed
  qed
qed

lemma creates_cycle_iff:
  assumes "\<And>b. (n, b) \<notin> E"
  shows "creates_cycle E (new_edges n ds) \<longleftrightarrow> (\<exists>d \<in> set ds. (d, n) \<in> E\<^sup>*)"
proof
  assume "creates_cycle E (new_edges n ds)"
  then obtain x where x: "(x, x) \<in> (E \<union> new_edges n ds)\<^sup>+" "(x, x) \<notin> E\<^sup>+"
    by (auto simp: creates_cycle_def)
  from trancl_through_new [OF x(1)] x(2)
  have "(x, n) \<in> (E \<union> new_edges n ds)\<^sup>*" "(n, x) \<in> (E \<union> new_edges n ds)\<^sup>+" by blast+
  then have "(n, n) \<in> (E \<union> new_edges n ds)\<^sup>+" by simp
  then obtain d where d: "(n, d) \<in> E \<union> new_edges n ds" "(d, n) \<in> (E \<union> new_edges n ds)\<^sup>*"
    by (meson tranclD)
  from d(1) assms have "d \<in> set ds" by (simp add: new_edges_def)
  moreover from d(2) have "(d, n) \<in> E\<^sup>*" by (rule reach_drop_new_edges)
  ultimately show "\<exists>d \<in> set ds. (d, n) \<in> E\<^sup>*" by blast
next
  assume "\<exists>d \<in> set ds. (d, n) \<in> E\<^sup>*"
  then obtain d where d: "d \<in> set ds" "(d, n) \<in> E\<^sup>*" by blast
  then have "(n, d) \<in> E \<union> new_edges n ds" by (simp add: new_edges_def)
  moreover from d(2) have "(d, n) \<in> (E \<union> new_edges n ds)\<^sup>*"
    by (rule rtrancl_mono [THEN subsetD, rotated]) simp
  ultimately have "(n, n) \<in> (E \<union> new_edges n ds)\<^sup>+" by (rule rtrancl_into_trancl2)
  moreover have "(n, n) \<notin> E\<^sup>+" using assms by (meson tranclD)
  ultimately show "creates_cycle E (new_edges n ds)" by (auto simp: creates_cycle_def)
qed

lemma graph_keys_card:
  "card (fst ` set (build_graph ts)) \<le> length ts"
proof (induction ts rule: rev_induct)
  case Nil
  then show ?case by (simp add: build_graph_def)
next
  case (snoc x xs)
  have "build_graph (xs @ [x]) = AList.update (task_id x) (dependencies x) (build_graph xs)"
    by (simp add: build_graph_def)
  then have "fst ` set (build_graph (xs @ [x])) = insert (task_id x) (fst ` set (build_graph xs))"
    by (simp add: dom_update [unfolded dom_map_of_conv_image_fst])
  then have "card (fst ` set (build_graph (xs @ [x]))) \<le> Suc (card (fst ` set (build_graph xs)))"
    by (simp add: card_insert_le_m1 card_insert_if)
  with snoc show ?case by simp
qed

lemma detect_graph_keys_card:
  "card (fst ` set (AList.update n ds (build_graph (getAllTasks db)))) \<le> Suc (length db)"
proof -
  have "fst ` set (AList.update n ds (build_graph (getAllTasks db)))
        = insert n (fst ` set (build_graph (getAllTasks db)))"
    by (simp add: dom_update [unfolded dom_map_of_conv_image_fst])
  then have "card (fst ` set (AList.update n ds (build_graph (getAllTasks db))))
        \<le> Suc (card (fst ` set (build_graph (getAllTasks db))))"
    by (simp add: card_insert_if)
  moreover have "card (fst ` set (build_graph (getAllTasks db))) \<le> length db"
    using graph_keys_card [of "getAllTasks db"] by (simp add: getAllTasks_def)
  ultimately show ?thesis by simp
qed

lemma detectCycle_verdict:
  assumes "pk_ok db" and "getTask db n = None" and "Suc (length db) < frames"
  shows "(detectCycle frames db n ds = Inr Valid \<or> (\<exists>e. detectCycle frames db n ds = Inr (Invalid e)))
       \<and> (detectCycle frames db n ds = Inr Valid \<longleftrightarrow> \<not> (\<exists>d \<in> set ds. (d, n) \<in> (dep_edges db)\<^sup>*))"
proof -
  let ?g = "AList.update n ds (build_graph (getAllTasks db))"
  have c: "card (fst ` set ?g) < frames"
    using detect_graph_keys_card [of n ds db] assms(3) by simp
  have "(\<exists>d \<in> set ds. (d, n) \<in> (dep_edges db \<union> new_edges n ds)\<^sup>*) \<longleftrightarrow>
        (\<exists>d \<in> set ds. (d, n) \<in> (dep_edges db)\<^sup>*)"
    using reach_drop_new_edges rtrancl_mono [of "dep_edges db" "dep_edges db \<union> new_edges n ds"]
    by blast
  moreover have "detectCycle frames db n ds = detectCycle_deps frames n ?g ds"
    by (simp add: detectCycle_def)
  moreover note detectCycle_deps_verdict [OF c, of n ds, unfolded detect_graph_edges [OF assms(1,2)]]
  ultimately show ?thesis by metis
qed

lemma check_dependencies_Valid:
  "check_dependencies db n ds = Valid \<longleftrightarrow>
   (\<forall>d \<in> set ds. d \<noteq> [] \<and> \<not> is_blank d \<and> d \<noteq> n \<and> getTask db d \<noteq> None)"
  by (induction ds) auto


subsection \<open>The verdict of the cycle check\<close>

text \<open>
  When the call stack has room for one activation of \<^verbatim>\<open>hasCycle\<close> per stored task and two
  more, an input that passes the checks before the cycle check gets a verdict, and it is
  rejected if and only if its edges create a cycle, that is, if and only if the new id
  can be reached from one of its dependencies along the dependency edges of the table.
\<close>

lemma validate_verdict_within_stack:
  assumes "pk_ok db"
    and "ti_id inp \<noteq> []" and "ti_type inp \<noteq> []" and "0 \<le> ti_duration_ms inp"
    and "getTask db (ti_id inp) = None"
    and "\<forall>d \<in> set (case ti_dependencies inp of None \<Rightarrow> [] | Some ds \<Rightarrow> ds).
           d \<noteq> [] \<and> \<not> is_blank d \<and> d \<noteq> ti_id inp \<and> getTask db d \<noteq> None"
    and "Suc (length db) < frames"
  shows "(validateTaskInput frames db inp = Inr Valid
            \<or> (\<exists>e. validateTaskInput frames db inp = Inr (Invalid e)))
       \<and> (validateTaskInput frames db inp \<noteq> Inr Valid \<longleftrightarrow>
            creates_cycle (dep_edges db)
              (new_edges (ti_id inp) (case ti_dependencies inp of None \<Rightarrow> [] | Some ds \<Rightarrow> ds)))
       \<and> (validateTaskInput frames db inp \<noteq> Inr Valid \<longleftrightarrow>
            (\<exists>d \<in> set (case ti_dependencies inp of None \<Rightarrow> [] | Some ds \<Rightarrow> ds).
               (d, ti_id inp) \<in> (dep_edges db)\<^sup>*))"
proof -
  define deps where "deps = (case ti_dependencies inp of None \<Rightarrow> [] | Some ds \<Rightarrow> ds)"
  have chk: "check_dependencies db (ti_id inp) deps = Valid"
    using assms(6) unfolding deps_def [symmetric] check_dependencies_Valid by blast
  have v: "validateTaskInput frames db inp = detectCycle frames db (ti_id inp) deps"
    using assms(2-5) chk unfolding validateTaskInput_def deps_def [symmetric] Let_def
    by (simp split: validation.splits sum.splits)
  note d = detectCycle_verdict [OF assms(1) assms(5) assms(7), of deps]
  have c: "creates_cycle (dep_edges db) (new_edges (ti_id inp) deps) \<longleftrightarrow>
           (\<exists>d \<in> set deps. (d, ti_id inp) \<in> (dep_edges db)\<^sup>*)"
    by (rule creates_cycle_iff) (rule no_edges_from_absent [OF assms(5)])
  show ?thesis using d c unfolding v deps_def by blast
qed

subsection \<open>A chain of tasks deeper than the call stack\<close>

text \<open>
  A table as the route \<^verbatim>\<open>POST /tasks\<close> builds it from a linear chain: the task number
  \<open>k\<close> has the id of \<open>k + 1\<close> letters \<open>x\<close> and depends on the task number \<open>k - 1\<close>; the
  first task has no dependency. \<open>deep_input n\<close> is a new task that depends on the last
  task of the chain of \<open>n\<close> tasks.
\<close>

definition deep_id :: "nat \<Rightarrow> string" where
  "deep_id k = replicate (Suc k) CHR ''x''"

definition deep_row :: "nat \<Rightarrow> row" where
  "deep_row k =
     \<lparr>task_id = deep_id k, task_type = ''X'', duration_ms = 0,
      dependencies = (if k = 0 then [] else [deep_id (k - 1)]),
      status = (if k = 0 then QUEUED else WAITING), created_at = int k,
      started_at = None, completed_at = None, error = None, retry_count = Some 0,
      version = 0\<rparr>"

definition deep_store :: "nat \<Rightarrow> database" where
  "deep_store n = map deep_row [0..<n]"

definition deep_input :: "nat \<Rightarrow> TaskInput" where
  "deep_input n =
     \<lparr>ti_id = ''new'', ti_type = ''X'', ti_duration_ms = 0,
      ti_dependencies = Some [deep_id (n - 1)]\<rparr>"

lemma deep_id_inj [simp]: "deep_id j = deep_id k \<longleftrightarrow> j = k"
  by (auto simp: deep_id_def dest: arg_cong [where f = length])

lemma deep_id_not_new [simp]: "deep_id k \<noteq> ''new''" "''new'' \<noteq> deep_id k"
  by (simp_all add: deep_id_def)

lemma deep_id_not_empty [simp]: "deep_id k \<noteq> []"
  by (simp add: deep_id_def)

lemma deep_id_not_blank [simp]: "\<not> is_blank (deep_id k)"
  by (simp add: deep_id_def white_space_3_def split: list.splits)

lemma deep_store_ids: "map task_id (deep_store n) = map deep_id [0..<n]"
  by (simp add: deep_store_def deep_row_def comp_def)

lemma deep_store_pk: "pk_ok (deep_store n)"
  unfolding pk_ok_def deep_store_ids by (simp add: distinct_map inj_on_def)

lemma deep_store_select:
  "k < n \<Longrightarrow> select_by_id (deep_store n) (deep_id k) = Some (deep_row k)"
  by (rule pk_row_by_id [OF deep_store_pk]) (simp_all add: deep_store_def deep_row_def)

lemma deep_store_no_new: "getTask (deep_store n) ''new'' = None"
proof -
  have "''new'' \<notin> task_id ` set (deep_store n)"
    unfolding set_map [symmetric] deep_store_ids by auto
  then show ?thesis by (simp add: getTask_def select_by_id_None [THEN iffD2])
qed

lemma deep_graph_lookup:
  assumes "k < n"
  shows "map_of (AList.update ''new'' ds (build_graph (getAllTasks (deep_store n)))) (deep_id k)
         = Some (if k = 0 then [] else [deep_id (k - 1)])"
proof -
  have "\<exists>t \<in> set (getAllTasks (deep_store n)).
          task_id t = deep_id k \<and> dependencies t = (if k = 0 then [] else [deep_id (k - 1)])"
    using assms by (auto simp: deep_store_def deep_row_def intro!: bexI [of _ k])
  then have "map_of (build_graph (getAllTasks (deep_store n))) (deep_id k)
             = Some (if k = 0 then [] else [deep_id (k - 1)])"
    using map_of_build_graph [OF getAllTasks_ids_distinct [OF deep_store_pk]] by blast
  then show ?thesis by (simp add: update_conv')
qed

lemma deep_search_overflows:
  assumes "frames \<le> k" and "k < n" and "\<forall>j \<le> k. deep_id j \<notin> v"
  shows "hasCycle frames (deep_id k) ''new''
           (AList.update ''new'' ds (build_graph (getAllTasks (deep_store n)))) v = Inl RangeError"
  using assms
proof (induction frames arbitrary: k v)
  case 0
  show ?case by (subst hasCycle.simps) simp
next
  case (Suc l)
  let ?g = "AList.update ''new'' ds (build_graph (getAllTasks (deep_store n)))"
  from Suc.prems have k: "0 < k" "l \<le> k - 1" "k - 1 < n" by simp_all
  have nv: "deep_id k \<notin> v" using Suc.prems(3) by simp
  have "\<forall>j \<le> k - 1. deep_id j \<notin> insert (deep_id k) v"
    using Suc.prems(3) k(1) by auto
  from Suc.IH [OF k(2) k(3) this]
  have inner: "hasCycle l (deep_id (k - 1)) ''new'' ?g (insert (deep_id k) v) = Inl RangeError" .
  have "hasCycle (Suc l) (deep_id k) ''new'' ?g v
        = hasCycle_deps l [deep_id (k - 1)] ''new'' ?g (insert (deep_id k) v)"
    using nv k(1) deep_graph_lookup [OF Suc.prems(2), of ds]
    by (subst hasCycle.simps) simp
  also have "\<dots> = Inl RangeError"
    using inner by (simp add: hasCycle_deps.simps(2))
  finally show ?case .
qed

lemma deep_no_edge_to_new: "(y, ''new'') \<notin> dep_edges (deep_store n)"
  by (auto simp: dep_edges_def deep_store_def deep_row_def split: if_splits)

lemma deep_input_is_acyclic:
  "\<not> creates_cycle (dep_edges (deep_store (Suc n)))
       (new_edges (ti_id (deep_input (Suc n))) [deep_id n])"
proof -
  have "(deep_id n, ''new'') \<notin> (dep_edges (deep_store (Suc n)))\<^sup>*"
  proof
    assume "(deep_id n, ''new'') \<in> (dep_edges (deep_store (Suc n)))\<^sup>*"
    then show False
      by (cases rule: rtranclE) (simp_all add: deep_no_edge_to_new)
  qed
  moreover have "creates_cycle (dep_edges (deep_store (Suc n))) (new_edges ''new'' [deep_id n])
      \<longleftrightarrow> (\<exists>d \<in> set [deep_id n]. (d, ''new'') \<in> (dep_edges (deep_store (Suc n)))\<^sup>*)"
    by (rule creates_cycle_iff) (rule no_edges_from_absent [OF deep_store_no_new])
  ultimately show ?thesis by (simp add: deep_input_def)
qed

text \<open>
  Claim C6 on the code. Whatever number of activations of \<^verbatim>\<open>hasCycle\<close> the call stack
  holds, there is a chain of tasks one longer: for the table of that chain and a new
  task that depends on its last task, an input that passes the checks before the cycle
  check and whose edges create no cycle, \<open>validateTaskInput\<close> neither accepts nor
  rejects; the search throws \<^verbatim>\<open>RangeError\<close>.
\<close>

theorem cycle_check_overflows_on_deep_chain:
  "validateTaskInput frames (deep_store (Suc frames)) (deep_input (Suc frames)) = Inl RangeError
   \<and> check_dependencies (deep_store (Suc frames)) (ti_id (deep_input (Suc frames)))
        [deep_id frames] = Valid
   \<and> getTask (deep_store (Suc frames)) (ti_id (deep_input (Suc frames))) = None
   \<and> \<not> creates_cycle (dep_edges (deep_store (Suc frames)))
         (new_edges (ti_id (deep_input (Suc frames))) [deep_id frames])"
proof -
  let ?db = "deep_store (Suc frames)"
  have chk: "check_dependencies ?db ''new'' [deep_id frames] = Valid"
    by (simp add: getTask_def deep_store_select)
  have "hasCycle frames (deep_id frames) ''new''
          (AList.update ''new'' [deep_id frames] (build_graph (getAllTasks ?db))) {} = Inl RangeError"
    by (rule deep_search_overflows) simp_all
  then have "detectCycle frames ?db ''new'' [deep_id frames] = Inl RangeError"
    by (simp add: detectCycle_def)
  with chk have "validateTaskInput frames ?db (deep_input (Suc frames)) = Inl RangeError"
    by (simp add: validateTaskInput_def deep_input_def deep_store_no_new)
  with chk deep_store_no_new [of "Suc frames"] deep_input_is_acyclic [of frames]
  show ?thesis by (simp add: deep_input_def)
qed

section \<open>The scheduler (src/engine/executor.ts)\<close>

text \<open>\<^verbatim>\<open>DatabaseManager.getReadyTasks\<close>.\<close>

definition getReadyTasks :: "database \<Rightarrow> Task list" where
  "getReadyTasks db =
     (let tasks = getAllTasks db;
          completedTaskIds = set (map task_id (filter (\<lambda>t. status t = COMPLETED) tasks))
      in filter (\<lambda>task.
           if status task \<noteq> QUEUED \<and> status task \<noteq> WAITING then False
           else list_all (\<lambda>depId. depId \<in> completedTaskIds) (dependencies task)) tasks)"

text \<open>
  The state of the running program: the table, the fields of the \<^verbatim>\<open>TaskExecutor\<close>, and
  the calls of \<^verbatim>\<open>executeTask\<close> that are suspended at \<^verbatim>\<open>await this.sleep(...)\<close>, each
  with the task it was called with. \<open>runningTasks\<close> is a JavaScript \<^verbatim>\<open>Set\<close>: a list
  without repetition in the order of insertion.
\<close>

record system =
  store :: database
  maxConcurrentTasks :: int
  runningTasks :: "string list"
  isRunning :: bool
  sleeping :: "Task list"

definition new_system :: "database \<Rightarrow> int \<Rightarrow> system" where
  "new_system db m =
     \<lparr>store = db, maxConcurrentTasks = m, runningTasks = [], isRunning = False, sleeping = []\<rparr>"

definition set_add :: "string \<Rightarrow> string list \<Rightarrow> string list" where
  "set_add x xs = (if x \<in> set xs then xs else xs @ [x])"

definition set_delete :: "string \<Rightarrow> string list \<Rightarrow> string list" where
  "set_delete x xs = removeAll x xs"

text \<open>
  \<^verbatim>\<open>executeTask\<close> up to its \<^verbatim>\<open>await\<close>: read the version, claim the task, and on success
  add the id to \<open>runningTasks\<close> and suspend. \<open>now\<close> is the value of \<^verbatim>\<open>Date.now()\<close>.
\<close>

definition executeTask_claim :: "int \<Rightarrow> system \<Rightarrow> Task \<Rightarrow> system" where
  "executeTask_claim now s task =
     (case getTaskWithVersion (store s) (task_id task) of
        None \<Rightarrow> s
      | Some (t, v) \<Rightarrow>
          (case updateTaskStatus (store s) (task_id task) RUNNING v
                  (no_updates\<lparr>u_started_at := Some now\<rparr>) of
             (claimed, db') \<Rightarrow>
               if \<not> claimed then s\<lparr>store := db'\<rparr>
               else s\<lparr>store := db',
                      runningTasks := set_add (task_id task) (runningTasks s),
                      sleeping := sleeping s @ [task]\<rparr>))"

text \<open>
  \<^verbatim>\<open>executeTask\<close> after the \<^verbatim>\<open>await\<close>. The body of \<^verbatim>\<open>try\<close> either runs through
  (\<open>Resolved\<close>: the terminal write is COMPLETED) or throws before its write (\<open>Threw\<close>
  with the message: the \<^verbatim>\<open>catch\<close> block writes FAILED); \<^verbatim>\<open>finally\<close> removes the id
  from \<open>runningTasks\<close>. The scheduling pass that \<^verbatim>\<open>setImmediate\<close> requests is a later
  step of the system.
\<close>

datatype outcome = Resolved | Threw string

definition executeTask_finish :: "int \<Rightarrow> outcome \<Rightarrow> system \<Rightarrow> Task \<Rightarrow> system" where
  "executeTask_finish now oc s task =
     (let db' =
        (case getTaskWithVersion (store s) (task_id task) of
           None \<Rightarrow> store s
         | Some (t, v) \<Rightarrow>
            (case oc of
               Resolved \<Rightarrow>
                 snd (updateTaskStatus (store s) (task_id task) COMPLETED v
                        (no_updates\<lparr>u_completed_at := Some now\<rparr>))
             | Threw errorMessage \<Rightarrow>
                 snd (updateTaskStatus (store s) (task_id task) FAILED v
                        (no_updates\<lparr>u_completed_at := Some now, u_error := Some errorMessage\<rparr>))))
      in s\<lparr>store := db',
           runningTasks := set_delete (task_id task) (runningTasks s),
           sleeping := remove1 task (sleeping s)\<rparr>)"

text \<open>\<^verbatim>\<open>scheduleNextTasks\<close>; \<open>tasksToExecute\<close> is the list the loop of claims runs over.\<close>

definition availableSlots :: "system \<Rightarrow> int" where
  "availableSlots s = maxConcurrentTasks s - int (length (runningTasks s))"

definition tasksToExecute :: "system \<Rightarrow> Task list" where
  "tasksToExecute s =
     take (nat (availableSlots s)) (sort_key created_at (getReadyTasks (store s)))"

definition scheduleNextTasks :: "int \<Rightarrow> system \<Rightarrow> system" where
  "scheduleNextTasks now s =
     (if \<not> isRunning s then s
      else if availableSlots s \<le> 0 then s
      else if length (getReadyTasks (store s)) = 0 then s
      else foldl (executeTask_claim now) s (tasksToExecute s))"

text \<open>\<^verbatim>\<open>start\<close> and \<^verbatim>\<open>stop\<close>; the timer of \<^verbatim>\<open>setInterval\<close> is the step \<open>tick\<close> below.\<close>

definition start :: "int \<Rightarrow> system \<Rightarrow> system" where
  "start now s =
     (if isRunning s then s
      else scheduleNextTasks now
             (s\<lparr>isRunning := True, store := recoverOrphanedTasks (store s)\<rparr>))"

definition stop :: "system \<Rightarrow> system" where
  "stop s = (if \<not> isRunning s then s else s\<lparr>isRunning := False\<rparr>)"

text \<open>
  The route \<^verbatim>\<open>POST /tasks\<close>: validate, materialise, insert. \<open>frames\<close> is the room
  of the call stack when the cycle check starts. An exception of the validator or of the
  insertion is caught by the route, which answers 500 and leaves the table as it is; a
  rejected input is answered 400.
\<close>

definition post_task :: "nat \<Rightarrow> int \<Rightarrow> TaskInput \<Rightarrow> system \<Rightarrow> system" where
  "post_task frames now taskInput s =
     (case validateTaskInput frames (store s) taskInput of
        Inl e \<Rightarrow> s
      | Inr (Invalid e) \<Rightarrow> s
      | Inr Valid \<Rightarrow>
          (case insertTask (store s) (createTask (store s) now taskInput) of
             Inl e \<Rightarrow> s
           | Inr (inserted, db') \<Rightarrow> s\<lparr>store := db'\<rparr>))"

text \<open>
  The steps of the system. The program creates one executor per process and starts it
  once (\<^verbatim>\<open>main\<close> in src/index.ts), so recovery runs when a process starts on the table
  the previous process left: \<open>restart\<close> ends the process, with its suspended calls, and
  starts a new one on the same table.
\<close>

inductive step :: "system \<Rightarrow> system \<Rightarrow> bool" where
  tick: "step s (scheduleNextTasks now s)"
| finish: "task \<in> set (sleeping s) \<Longrightarrow> step s (executeTask_finish now oc s task)"
| post: "step s (post_task frames now taskInput s)"
| halt: "step s (stop s)"
| restart: "step s (start now (new_system (store s) (maxConcurrentTasks s)))"

inductive reachable :: "int \<Rightarrow> system \<Rightarrow> bool" where
  boot: "reachable m (start now (new_system [] m))"
| after: "reachable m s \<Longrightarrow> step s s' \<Longrightarrow> reachable m s'"

section \<open>The order of claim attempts\<close>

text \<open>A task is ready in a table: the test of the filter of \<open>getReadyTasks\<close>.\<close>

definition is_ready :: "database \<Rightarrow> Task \<Rightarrow> bool" where
  "is_ready db task \<longleftrightarrow>
     (status task = QUEUED \<or> status task = WAITING) \<and>
     list_all (\<lambda>depId. depId \<in> set (map task_id (filter (\<lambda>t. status t = COMPLETED) (getAllTasks db))))
       (dependencies task)"

lemma getReadyTasks_filter:
  "getReadyTasks db = map rowToTask (filter (\<lambda>r. is_ready db (rowToTask r)) (sort_key created_at db))"
proof -
  have "getReadyTasks db = filter (is_ready db) (getAllTasks db)"
    unfolding getReadyTasks_def Let_def is_ready_def
    by (rule filter_cong [OF refl]) auto
  then show ?thesis by (simp add: getAllTasks_def filter_map comp_def)
qed

lemma created_at_rowToTask_comp: "map created_at (map rowToTask rs) = map created_at rs"
  by simp

lemma getReadyTasks_sorted: "sorted (map created_at (getReadyTasks db))"
  unfolding getReadyTasks_filter created_at_rowToTask_comp
  by (rule sorted_filter) (rule sorted_sort_key)

lemma sort_ready_id: "sort_key created_at (getReadyTasks db) = getReadyTasks db"
  by (rule sort_key_id_if_sorted) (rule getReadyTasks_sorted)

lemma ready_ties_in_table_order:
  "filter (\<lambda>t. created_at t = k) (getReadyTasks db) =
   map rowToTask (filter (\<lambda>r. created_at r = k \<and> is_ready db (rowToTask r)) db)"
proof -
  have "filter (\<lambda>t. created_at t = k) (getReadyTasks db) =
        map rowToTask (filter (\<lambda>r. is_ready db (rowToTask r))
           (filter (\<lambda>r. created_at r = k) (sort_key created_at db)))"
    unfolding getReadyTasks_filter by (simp add: filter_map comp_def conj_commute)
  also have "filter (\<lambda>r. created_at r = k) (sort_key created_at db) = filter (\<lambda>r. created_at r = k) db"
    by (rule sort_key_stable)
  finally show ?thesis by (simp add: conj_commute)
qed

text \<open>
  Claim C7, amended. A tick of a running scheduler with free slots makes its claim
  attempts, in order, on the first free-slot-count entries of the ready tasks sorted by
  \<open>created_at\<close> ascending; among ready tasks with the same \<open>created_at\<close> the order is
  the order of the rows in the table (the order of insertion), not the order of the ids.
\<close>

theorem tick_attempts_by_created_at:
  "scheduleNextTasks now s =
     (if isRunning s \<and> 0 < availableSlots s
      then foldl (executeTask_claim now) s (tasksToExecute s) else s)
   \<and> tasksToExecute s =
       take (nat (maxConcurrentTasks s - int (length (runningTasks s))))
         (sort_key created_at (getReadyTasks (store s)))
   \<and> sorted (map created_at (sort_key created_at (getReadyTasks (store s))))
   \<and> filter (\<lambda>t. created_at t = k) (sort_key created_at (getReadyTasks (store s))) =
       map rowToTask (filter (\<lambda>r. created_at r = k \<and> is_ready (store s) (rowToTask r)) (store s))"
proof -
  have a: "scheduleNextTasks now s =
     (if isRunning s \<and> 0 < availableSlots s
      then foldl (executeTask_claim now) s (tasksToExecute s) else s)"
    by (simp add: scheduleNextTasks_def tasksToExecute_def)
  have b: "tasksToExecute s =
       take (nat (maxConcurrentTasks s - int (length (runningTasks s))))
         (sort_key created_at (getReadyTasks (store s)))"
    by (simp add: tasksToExecute_def availableSlots_def)
  have c: "sorted (map created_at (sort_key created_at (getReadyTasks (store s))))"
    by (rule sorted_sort_key)
  have d: "filter (\<lambda>t. created_at t = k) (sort_key created_at (getReadyTasks (store s))) =
       map rowToTask (filter (\<lambda>r. created_at r = k \<and> is_ready (store s) (rowToTask r)) (store s))"
    unfolding sort_ready_id by (rule ready_ties_in_table_order)
  show ?thesis using a b c d by blast
qed

text \<open>
  Two tasks posted in the same millisecond, \<open>b\<close> before \<open>a\<close>, to a scheduler with two
  free slots.
\<close>

definition same_ms_system :: system where
  "same_ms_system =
     post_task 5000 5 \<lparr>ti_id = ''a'', ti_type = ''X'', ti_duration_ms = 10, ti_dependencies = None\<rparr>
       (post_task 5000 5 \<lparr>ti_id = ''b'', ti_type = ''X'', ti_duration_ms = 10, ti_dependencies = None\<rparr>
          (start 0 (new_system [] 2)))"

lemmas eval_defs =
  post_task_def start_def new_system_def scheduleNextTasks_def availableSlots_def
  tasksToExecute_def getReadyTasks_def getAllTasks_def rowToTask_def falsy_num_def falsy_str_def
  recoverOrphanedTasks_def getOrphanedTasks_def getTasksByStatus_def
  validateTaskInput_def getTask_def select_by_id_def detectCycle_def build_graph_def
  createTask_def insertTask_def executeTask_claim_def executeTask_finish_def
  getTaskWithVersion_def updateTaskStatus_def where_clause_def set_fields_def no_updates_def
  set_add_def set_delete_def Let_def

lemma same_ms_store:
  "store same_ms_system =
     [\<lparr>task_id = ''b'', task_type = ''X'', duration_ms = 10, dependencies = [], status = QUEUED,
       created_at = 5, started_at = None, completed_at = None, error = None,
       retry_count = Some 0, version = 0\<rparr>,
      \<lparr>task_id = ''a'', task_type = ''X'', duration_ms = 10, dependencies = [], status = QUEUED,
       created_at = 5, started_at = None, completed_at = None, error = None,
       retry_count = Some 0, version = 0\<rparr>]"
  by (simp add: same_ms_system_def eval_defs)

lemma same_ms_reachable: "reachable 2 same_ms_system"
  unfolding same_ms_system_def
  by (intro reachable.after [OF _ step.post] reachable.boot)

lemma same_ms_attempts:
  "map task_id (tasksToExecute same_ms_system) = [''b'', ''a'']"
  "map created_at (tasksToExecute same_ms_system) = [5, 5]"
  by (simp_all add: same_ms_store tasksToExecute_def availableSlots_def getReadyTasks_def
      getAllTasks_def rowToTask_def falsy_num_def falsy_str_def Let_def)
     (simp_all add: same_ms_system_def eval_defs)

text \<open>
  Claim C7 fails on the code. Both tasks are ready and have the same \<open>created_at\<close>; the
  tick attempts \<open>b\<close> before \<open>a\<close>, although \<open>a\<close> is the smaller id.
\<close>

theorem tie_not_broken_by_id:
  "reachable 2 same_ms_system
   \<and> map task_id (tasksToExecute same_ms_system) = [''b'', ''a'']
   \<and> map created_at (tasksToExecute same_ms_system) = [5, 5]
   \<and> ''a'' < ''b''"
  using same_ms_reachable same_ms_attempts by simp

theorem tick_attempts_by_created_at_witness:
  "map task_id (filter (\<lambda>t. created_at t = 5)
      (sort_key created_at (getReadyTasks (store same_ms_system)))) = [''b'', ''a'']"
proof -
  have "filter (\<lambda>t. created_at t = 5) (sort_key created_at (getReadyTasks (store same_ms_system))) =
       map rowToTask (filter (\<lambda>r. created_at r = 5 \<and> is_ready (store same_ms_system) (rowToTask r))
         (store same_ms_system))"
    using tick_attempts_by_created_at [of 6 same_ms_system 5] by blast
  then show ?thesis by (simp add: same_ms_store is_ready_def)
qed

section \<open>Invariants of the running system\<close>

subsection \<open>What a claim changes\<close>

abbreviation claim_updates :: "int \<Rightarrow> updates" where
  "claim_updates now \<equiv> no_updates\<lparr>u_started_at := Some now\<rparr>"

lemma update_by_id:
  assumes "pk_ok db" and "select_by_id db i = Some r"
  shows "updateTaskStatus db i st (version r) u =
         (True, map (\<lambda>x. if task_id x = i then set_fields st u x else x) db)"
proof -
  from assms(2) have r: "r \<in> set db" "task_id r = i" using select_by_id_Some by auto
  have same: "x = r" if "x \<in> set db" "task_id x = i" for x
    using assms that by (metis pk_row_by_id option.inject)
  have "fst (updateTaskStatus db i st (version r) u)" using update_fst r by blast
  moreover have "snd (updateTaskStatus db i st (version r) u) =
      map (\<lambda>x. if task_id x = i then set_fields st u x else x) db"
    unfolding updateTaskStatus_def Let_def snd_conv
    by (rule map_cong [OF refl]) (auto simp: where_clause_def dest: same)
  ultimately show ?thesis by (simp add: prod_eq_iff)
qed

lemma claim_present:
  assumes "pk_ok (store s)" and "select_by_id (store s) (task_id t) = Some r"
  shows "executeTask_claim now s t =
         s\<lparr>store := map (\<lambda>x. if task_id x = task_id t then set_fields RUNNING (claim_updates now) x else x)
                      (store s),
           runningTasks := set_add (task_id t) (runningTasks s),
           sleeping := sleeping s @ [t]\<rparr>"
  unfolding executeTask_claim_def getTaskWithVersion_def
  using assms(2) update_by_id [OF assms] by simp

lemma claim_absent:
  "select_by_id (store s) (task_id t) = None \<Longrightarrow> executeTask_claim now s t = s"
  by (simp add: executeTask_claim_def getTaskWithVersion_def)

lemma executeTask_claim_alt:
  "executeTask_claim now s t =
     (case getTaskWithVersion (store s) (task_id t) of
        None \<Rightarrow> s
      | Some (t', v) \<Rightarrow>
          if \<not> fst (updateTaskStatus (store s) (task_id t) RUNNING v (claim_updates now))
          then s\<lparr>store := snd (updateTaskStatus (store s) (task_id t) RUNNING v (claim_updates now))\<rparr>
          else s\<lparr>store := snd (updateTaskStatus (store s) (task_id t) RUNNING v (claim_updates now)),
                 runningTasks := set_add (task_id t) (runningTasks s),
                 sleeping := sleeping s @ [t]\<rparr>)"
  by (simp add: executeTask_claim_def split: option.splits prod.splits)

lemma claim_fields [simp]:
  "maxConcurrentTasks (executeTask_claim now s t) = maxConcurrentTasks s"
  "isRunning (executeTask_claim now s t) = isRunning s"
  "map task_id (store (executeTask_claim now s t)) = map task_id (store s)"
  by (simp_all add: executeTask_claim_alt split: option.splits)

lemma claim_pk [simp]: "pk_ok (store (executeTask_claim now s t)) = pk_ok (store s)"
  by (simp add: pk_ok_def)

lemma claim_other_row:
  "j \<noteq> task_id t \<Longrightarrow>
   select_by_id (store (executeTask_claim now s t)) j = select_by_id (store s) j"
  by (simp add: executeTask_claim_alt update_select_other split: option.splits)

lemma claim_length:
  "length (runningTasks (executeTask_claim now s t)) \<le> Suc (length (runningTasks s))"
  "length (sleeping (executeTask_claim now s t)) \<le> Suc (length (sleeping s))"
  by (simp_all add: executeTask_claim_alt set_add_def split: option.splits)

lemma claims_fields [simp]:
  "maxConcurrentTasks (foldl (executeTask_claim now) s ts) = maxConcurrentTasks s"
  "isRunning (foldl (executeTask_claim now) s ts) = isRunning s"
  "pk_ok (store (foldl (executeTask_claim now) s ts)) = pk_ok (store s)"
  by (induction ts arbitrary: s) auto

lemma claims_other_row:
  "j \<notin> task_id ` set ts \<Longrightarrow>
   select_by_id (store (foldl (executeTask_claim now) s ts)) j = select_by_id (store s) j"
  by (induction ts arbitrary: s) (auto simp: claim_other_row)

lemma claims_length:
  "length (runningTasks (foldl (executeTask_claim now) s ts)) \<le> length (runningTasks s) + length ts"
  "length (sleeping (foldl (executeTask_claim now) s ts)) \<le> length (sleeping s) + length ts"
proof (induction ts arbitrary: s)
  case Nil
  { case 1 show ?case by simp }
  { case 2 show ?case by simp }
next
  case (Cons t ts)
  { case 1
    show ?case using Cons.IH(1) [of "executeTask_claim now s t"] claim_length(1) [of now s t]
      by simp }
  { case 2
    show ?case using Cons.IH(2) [of "executeTask_claim now s t"] claim_length(2) [of now s t]
      by simp }
qed


subsection \<open>The invariant\<close>

definition row_status :: "database \<Rightarrow> string \<Rightarrow> TaskStatus option" where
  "row_status db i = map_option status (select_by_id db i)"

text \<open>
  The table satisfies its primary key; \<open>runningTasks\<close> lists the ids of the suspended
  calls, in order and without repetition; the task of every suspended call is RUNNING in
  the table.
\<close>

definition sys_inv :: "system \<Rightarrow> bool" where
  "sys_inv s \<longleftrightarrow>
     pk_ok (store s) \<and>
     runningTasks s = map task_id (sleeping s) \<and>
     distinct (map task_id (sleeping s)) \<and>
     (\<forall>t \<in> set (sleeping s). row_status (store s) (task_id t) = Some RUNNING)"

lemma row_status_map:
  assumes "\<And>r. task_id (f r) = task_id r"
  shows "row_status (map f db) j = map_option (status \<circ> f) (select_by_id db j)"
  by (simp add: row_status_def select_map_hit [of f, OF assms] option.map_comp)

lemma claim_inv:
  assumes "sys_inv s" and "row_status (store s) (task_id t) = Some st" and "st \<noteq> RUNNING"
  shows "sys_inv (executeTask_claim now s t)"
proof -
  from assms(1) have pk: "pk_ok (store s)" and rt: "runningTasks s = map task_id (sleeping s)"
    and di: "distinct (map task_id (sleeping s))"
    and ru: "\<And>t'. t' \<in> set (sleeping s) \<Longrightarrow> row_status (store s) (task_id t') = Some RUNNING"
    by (auto simp: sys_inv_def)
  from assms(2) obtain r where r: "select_by_id (store s) (task_id t) = Some r"
    by (auto simp: row_status_def)
  have fresh: "task_id t \<notin> task_id ` set (sleeping s)"
    using ru assms(2,3) by force
  let ?f = "\<lambda>x. if task_id x = task_id t then set_fields RUNNING (claim_updates now) x else x"
  have eq: "executeTask_claim now s t =
         s\<lparr>store := map ?f (store s),
           runningTasks := runningTasks s @ [task_id t],
           sleeping := sleeping s @ [t]\<rparr>"
    using claim_present [OF pk r, of now] fresh rt by (simp add: set_add_def)
  have st: "row_status (map ?f (store s)) j = map_option (status \<circ> ?f) (select_by_id (store s) j)" for j
    by (rule row_status_map) simp
  have a: "row_status (map ?f (store s)) (task_id t) = Some RUNNING"
    using st [of "task_id t"] r select_by_id_Some [OF r] by simp
  have b: "row_status (map ?f (store s)) (task_id t') = Some RUNNING" if "t' \<in> set (sleeping s)" for t'
  proof -
    from that fresh have "task_id t' \<noteq> task_id t" by (metis imageI)
    moreover from ru [OF that] obtain r' where "select_by_id (store s) (task_id t') = Some r'"
      "status r' = RUNNING" by (auto simp: row_status_def)
    ultimately show ?thesis using st [of "task_id t'"] select_by_id_Some [of "store s" "task_id t'" r']
      by simp
  qed
  have "pk_ok (map ?f (store s))" using pk by (simp add: pk_ok_map)
  then show ?thesis
    unfolding eq sys_inv_def using rt di fresh a b by auto
qed

lemma claim_row_status_other:
  "j \<noteq> task_id t \<Longrightarrow> row_status (store (executeTask_claim now s t)) j = row_status (store s) j"
  by (simp add: row_status_def claim_other_row)

lemma claims_inv:
  "sys_inv s \<Longrightarrow> distinct (map task_id ts) \<Longrightarrow>
   (\<forall>t \<in> set ts. \<exists>st. row_status (store s) (task_id t) = Some st \<and> st \<noteq> RUNNING) \<Longrightarrow>
   sys_inv (foldl (executeTask_claim now) s ts)"
proof (induction ts arbitrary: s)
  case Nil
  then show ?case by simp
next
  case (Cons t ts)
  from Cons.prems(3) obtain st where st: "row_status (store s) (task_id t) = Some st" "st \<noteq> RUNNING"
    by auto
  have i: "sys_inv (executeTask_claim now s t)" using Cons.prems(1) st by (rule claim_inv)
  have d: "distinct (map task_id ts)" and nt: "task_id t \<notin> task_id ` set ts"
    using Cons.prems(2) by auto
  have "\<forall>t' \<in> set ts. \<exists>st. row_status (store (executeTask_claim now s t)) (task_id t') = Some st
          \<and> st \<noteq> RUNNING"
  proof
    fix t' assume t': "t' \<in> set ts"
    with nt have "task_id t' \<noteq> task_id t" by (metis imageI)
    then show "\<exists>st. row_status (store (executeTask_claim now s t)) (task_id t') = Some st \<and> st \<noteq> RUNNING"
      using Cons.prems(3) t' by (simp add: claim_row_status_other)
  qed
  with Cons.IH [OF i d] show ?case by simp
qed

lemma ready_rows:
  assumes "pk_ok db" and "t \<in> set (getReadyTasks db)"
  shows "row_status db (task_id t) = Some (status t) \<and> (status t = QUEUED \<or> status t = WAITING)"
proof -
  from assms(2) obtain r where r: "r \<in> set db" "t = rowToTask r" "is_ready db (rowToTask r)"
    unfolding getReadyTasks_filter by auto
  from pk_row_by_id [OF assms(1) r(1) refl] have "row_status db (task_id r) = Some (status r)"
    by (simp add: row_status_def)
  with r show ?thesis by (simp add: is_ready_def)
qed

lemma ready_ids_distinct: "pk_ok db \<Longrightarrow> distinct (map task_id (getReadyTasks db))"
  unfolding getReadyTasks_filter pk_ok_def
  by (simp add: comp_def distinct_map_filter distinct_map inj_on_def)

lemma tasksToExecute_take: "tasksToExecute s = take (nat (availableSlots s)) (getReadyTasks (store s))"
  by (simp add: tasksToExecute_def sort_ready_id)

lemma tasksToExecute_ready: "t \<in> set (tasksToExecute s) \<Longrightarrow> t \<in> set (getReadyTasks (store s))"
  unfolding tasksToExecute_take by (rule in_set_takeD)

lemma tasksToExecute_distinct: "pk_ok (store s) \<Longrightarrow> distinct (map task_id (tasksToExecute s))"
  unfolding tasksToExecute_take take_map [symmetric]
  by (rule distinct_take) (rule ready_ids_distinct)

lemma scheduleNextTasks_alt:
  "scheduleNextTasks now s =
     (if isRunning s \<and> 0 < availableSlots s
      then foldl (executeTask_claim now) s (tasksToExecute s) else s)"
  by (simp add: scheduleNextTasks_def tasksToExecute_def)

lemma tick_inv:
  assumes "sys_inv s"
  shows "sys_inv (scheduleNextTasks now s)"
proof -
  from assms have pk: "pk_ok (store s)" by (simp add: sys_inv_def)
  have "\<forall>t \<in> set (tasksToExecute s). \<exists>st. row_status (store s) (task_id t) = Some st \<and> st \<noteq> RUNNING"
    using ready_rows [OF pk] tasksToExecute_ready by fastforce
  with assms tasksToExecute_distinct [OF pk]
  have "sys_inv (foldl (executeTask_claim now) s (tasksToExecute s))" by (rule claims_inv)
  with assms show ?thesis by (simp add: scheduleNextTasks_alt)
qed


subsection \<open>The terminal write\<close>

definition terminal_status :: "outcome \<Rightarrow> TaskStatus" where
  "terminal_status oc = (case oc of Resolved \<Rightarrow> COMPLETED | Threw e \<Rightarrow> FAILED)"

definition terminal_updates :: "int \<Rightarrow> outcome \<Rightarrow> updates" where
  "terminal_updates now oc =
     (case oc of
        Resolved \<Rightarrow> no_updates\<lparr>u_completed_at := Some now\<rparr>
      | Threw e \<Rightarrow> no_updates\<lparr>u_completed_at := Some now, u_error := Some e\<rparr>)"

lemma executeTask_finish_alt:
  "executeTask_finish now oc s t =
     s\<lparr>store :=
         (case getTaskWithVersion (store s) (task_id t) of
            None \<Rightarrow> store s
          | Some (t', v) \<Rightarrow>
              snd (updateTaskStatus (store s) (task_id t) (terminal_status oc) v
                     (terminal_updates now oc))),
       runningTasks := set_delete (task_id t) (runningTasks s),
       sleeping := remove1 t (sleeping s)\<rparr>"
  by (simp add: executeTask_finish_def terminal_status_def terminal_updates_def Let_def
      split: option.splits outcome.splits)

lemma finish_fields [simp]:
  "maxConcurrentTasks (executeTask_finish now oc s t) = maxConcurrentTasks s"
  "isRunning (executeTask_finish now oc s t) = isRunning s"
  "map task_id (store (executeTask_finish now oc s t)) = map task_id (store s)"
  "runningTasks (executeTask_finish now oc s t) = removeAll (task_id t) (runningTasks s)"
  "sleeping (executeTask_finish now oc s t) = remove1 t (sleeping s)"
  by (simp_all add: executeTask_finish_alt set_delete_def split: option.splits)

lemma finish_other_row:
  "j \<noteq> task_id t \<Longrightarrow>
   select_by_id (store (executeTask_finish now oc s t)) j = select_by_id (store s) j"
  by (simp add: executeTask_finish_alt update_select_other split: option.splits)

lemma removeAll_map_remove1:
  "distinct (map f xs) \<Longrightarrow> x \<in> set xs \<Longrightarrow> removeAll (f x) (map f xs) = map f (remove1 x xs)"
proof (induction xs)
  case Nil
  then show ?case by simp
next
  case (Cons y ys)
  show ?case
  proof (cases "y = x")
    case True
    with Cons.prems(1) have "f x \<notin> set (map f ys)" by simp
    with True show ?thesis by simp
  next
    case False
    with Cons.prems have "x \<in> set ys" "f y \<noteq> f x" by force+
    with Cons.IH Cons.prems(1) False show ?thesis by simp
  qed
qed

lemma finish_inv:
  assumes "sys_inv s" and "t \<in> set (sleeping s)"
  shows "sys_inv (executeTask_finish now oc s t)"
proof -
  from assms(1) have pk: "pk_ok (store s)" and rt: "runningTasks s = map task_id (sleeping s)"
    and di: "distinct (map task_id (sleeping s))"
    and ru: "\<And>t'. t' \<in> set (sleeping s) \<Longrightarrow> row_status (store s) (task_id t') = Some RUNNING"
    by (auto simp: sys_inv_def)
  have a: "pk_ok (store (executeTask_finish now oc s t))" using pk by (simp add: pk_ok_def)
  have b: "runningTasks (executeTask_finish now oc s t) =
           map task_id (sleeping (executeTask_finish now oc s t))"
    using removeAll_map_remove1 [OF di assms(2)] rt by simp
  have c: "distinct (map task_id (sleeping (executeTask_finish now oc s t)))"
    using di b rt by (metis distinct_removeAll finish_fields(4))
  have d: "row_status (store (executeTask_finish now oc s t)) (task_id t') = Some RUNNING"
    if "t' \<in> set (sleeping (executeTask_finish now oc s t))" for t'
  proof -
    from that have "task_id t' \<in> set (removeAll (task_id t) (runningTasks s))"
      using b by (metis finish_fields(4) image_eqI set_map)
    then have ne: "task_id t' \<noteq> task_id t" by simp
    from that have "t' \<in> set (sleeping s)" by (metis finish_fields(5) notin_set_remove1)
    from ru [OF this] ne show ?thesis by (simp add: row_status_def finish_other_row)
  qed
  show ?thesis unfolding sys_inv_def using a b c d by blast
qed

subsection \<open>Posting a task, recovery, start\<close>

lemma select_by_id_append:
  "select_by_id (db @ [x]) j =
     (case select_by_id db j of Some r \<Rightarrow> Some r | None \<Rightarrow> if task_id x = j then Some x else None)"
  unfolding select_by_id_def by (induction db) auto

lemma insert_pk: "pk_ok db \<Longrightarrow> insertTask db t = Inr (b, db') \<Longrightarrow> pk_ok db'"
  by (auto simp: insertTask_def pk_ok_def split: if_splits)

lemma insert_keeps_rows:
  "select_by_id db j = Some r \<Longrightarrow> insertTask db t = Inr (b, db') \<Longrightarrow>
   select_by_id db' j = Some r"
  by (auto simp: insertTask_def select_by_id_append split: if_splits)

lemma post_fields [simp]:
  "maxConcurrentTasks (post_task frames now inp s) = maxConcurrentTasks s"
  "isRunning (post_task frames now inp s) = isRunning s"
  "runningTasks (post_task frames now inp s) = runningTasks s"
  "sleeping (post_task frames now inp s) = sleeping s"
  by (simp_all add: post_task_def split: validation.splits sum.splits prod.splits)

lemma post_pk: "pk_ok (store s) \<Longrightarrow> pk_ok (store (post_task frames now inp s))"
  by (auto simp: post_task_def split: validation.splits sum.splits prod.splits dest: insert_pk)

lemma post_keeps_rows:
  "select_by_id (store s) j = Some r \<Longrightarrow>
   select_by_id (store (post_task frames now inp s)) j = Some r"
  by (auto simp: post_task_def split: validation.splits sum.splits prod.splits
      dest: insert_keeps_rows)

lemma post_inv:
  assumes "sys_inv s"
  shows "sys_inv (post_task frames now inp s)"
proof -
  have "row_status (store (post_task frames now inp s)) j = Some st" if "row_status (store s) j = Some st" for j st
    using that post_keeps_rows [of s j _ frames now inp] by (auto simp: row_status_def)
  with assms post_pk [of s frames now inp] show ?thesis by (simp add: sys_inv_def)
qed

lemma start_inv:
  assumes "pk_ok db"
  shows "sys_inv (start now (new_system db m))"
proof -
  have "sys_inv ((new_system db m)\<lparr>isRunning := True, store := recoverOrphanedTasks db\<rparr>)"
    using recover_pk [OF assms] by (simp add: sys_inv_def new_system_def)
  then show ?thesis
    unfolding start_def by (simp add: new_system_def tick_inv)
qed

lemma step_inv:
  assumes "step s s'" and "sys_inv s"
  shows "sys_inv s'"
  using assms
proof (induction rule: step.induct)
  case (tick s now)
  then show ?case by (rule tick_inv)
next
  case (finish task s now oc)
  then show ?case by (simp add: finish_inv)
next
  case (post s frames now taskInput)
  then show ?case by (rule post_inv)
next
  case (halt s)
  then show ?case by (simp add: stop_def sys_inv_def)
next
  case (restart s now)
  then have "pk_ok (store s)" by (simp add: sys_inv_def)
  then show ?case by (rule start_inv)
qed

lemma reachable_inv: "reachable m s \<Longrightarrow> sys_inv s"
proof (induction rule: reachable.induct)
  case (boot m now)
  show ?case by (rule start_inv) (simp add: pk_ok_def)
next
  case (after m s s')
  then show ?case using step_inv by blast
qed

lemma steps_reachable: "step\<^sup>*\<^sup>* s s' \<Longrightarrow> reachable m s \<Longrightarrow> reachable m s'"
  by (induction rule: rtranclp_induct) (auto intro: reachable.after)

section \<open>The concurrency bound\<close>

lemma tick_fields [simp]:
  "maxConcurrentTasks (scheduleNextTasks now s) = maxConcurrentTasks s"
  "isRunning (scheduleNextTasks now s) = isRunning s"
  by (simp_all add: scheduleNextTasks_alt)

lemma tasksToExecute_length: "length (tasksToExecute s) \<le> nat (availableSlots s)"
  by (simp add: tasksToExecute_def)

lemma tick_bound:
  assumes "int (length (runningTasks s)) \<le> maxConcurrentTasks s"
  shows "int (length (runningTasks (scheduleNextTasks now s))) \<le> maxConcurrentTasks s"
proof (cases "isRunning s \<and> 0 < availableSlots s")
  case True
  have "length (runningTasks (foldl (executeTask_claim now) s (tasksToExecute s)))
        \<le> length (runningTasks s) + nat (availableSlots s)"
    using claims_length(1) [of now s "tasksToExecute s"] tasksToExecute_length [of s] by linarith
  with True show ?thesis by (simp add: scheduleNextTasks_alt availableSlots_def) linarith
next
  case False
  with assms show ?thesis by (auto simp: scheduleNextTasks_alt)
qed

lemma tick_claims_at_most_free:
  assumes "int (length (runningTasks s)) \<le> maxConcurrentTasks s"
  shows "int (length (sleeping (scheduleNextTasks now s))) - int (length (sleeping s))
         \<le> maxConcurrentTasks s - int (length (runningTasks s))"
proof (cases "isRunning s \<and> 0 < availableSlots s")
  case True
  have "length (sleeping (foldl (executeTask_claim now) s (tasksToExecute s)))
        \<le> length (sleeping s) + nat (availableSlots s)"
    using claims_length(2) [of now s "tasksToExecute s"] tasksToExecute_length [of s] by linarith
  with True show ?thesis by (simp add: scheduleNextTasks_alt availableSlots_def) linarith
next
  case False
  with assms show ?thesis by (auto simp: scheduleNextTasks_alt)
qed

lemma start_new_bound:
  assumes "0 \<le> m"
  shows "maxConcurrentTasks (start now (new_system db m)) = m
       \<and> int (length (runningTasks (start now (new_system db m)))) \<le> m"
proof -
  let ?s = "(new_system db m)\<lparr>isRunning := True, store := recoverOrphanedTasks db\<rparr>"
  have "int (length (runningTasks ?s)) \<le> maxConcurrentTasks ?s"
    using assms by (simp add: new_system_def)
  from tick_bound [OF this, of now] show ?thesis
    by (simp add: start_def new_system_def)
qed

lemma step_bound:
  assumes "step s s'" and "0 \<le> maxConcurrentTasks s"
    and "int (length (runningTasks s)) \<le> maxConcurrentTasks s"
  shows "maxConcurrentTasks s' = maxConcurrentTasks s
       \<and> int (length (runningTasks s')) \<le> maxConcurrentTasks s"
  using assms
proof (induction rule: step.induct)
  case (tick s now)
  then show ?case using tick_bound by simp
next
  case (finish task s now oc)
  have "int (length (removeAll (task_id task) (runningTasks s))) \<le> maxConcurrentTasks s"
    using finish.prems(2) length_removeAll_less_eq [of "task_id task" "runningTasks s"]
    by linarith
  then show ?case by simp
next
  case (post s frames now taskInput)
  then show ?case by simp
next
  case (halt s)
  then show ?case by (simp add: stop_def)
next
  case (restart s now)
  then show ?case using start_new_bound by simp
qed

lemma reachable_bound:
  "reachable m s \<Longrightarrow> 0 \<le> m \<Longrightarrow>
   maxConcurrentTasks s = m \<and> int (length (runningTasks s)) \<le> m"
proof (induction rule: reachable.induct)
  case (boot m now)
  then show ?case by (rule start_new_bound)
next
  case (after m s s')
  then show ?case using step_bound [of s s'] by simp
qed

text \<open>
  Claim C2. Let the configured bound be non-negative. In every state the system reaches
  by ticks, claims, terminal writes of runners, posts, stops and restarts with recovery,
  the size of \<open>runningTasks\<close> is at most \<open>maxConcurrentTasks\<close>; it is the number of
  suspended runners (the in-flight tasks); and a tick from that state claims at most
  \<open>maxConcurrentTasks\<close> minus the size of \<open>runningTasks\<close> tasks.
\<close>

theorem running_tasks_bounded:
  assumes "0 \<le> m" and "reachable m s"
  shows "maxConcurrentTasks s = m
       \<and> int (length (runningTasks s)) \<le> m
       \<and> length (sleeping s) = length (runningTasks s)
       \<and> int (length (sleeping (scheduleNextTasks now s))) - int (length (sleeping s))
           \<le> m - int (length (runningTasks s))"
proof -
  from reachable_bound [OF assms(2,1)]
  have b: "maxConcurrentTasks s = m" "int (length (runningTasks s)) \<le> m" by simp_all
  from reachable_inv [OF assms(2)] have "runningTasks s = map task_id (sleeping s)"
    by (simp add: sys_inv_def)
  then have e: "length (sleeping s) = length (runningTasks s)" by simp
  from b tick_claims_at_most_free [of s now]
  have c: "int (length (sleeping (scheduleNextTasks now s))) - int (length (sleeping s))
           \<le> m - int (length (runningTasks s))" by simp
  show ?thesis using b e c by blast
qed

section \<open>Terminal states\<close>

lemma getTask_status: "map_option status (getTask db i) = row_status db i"
  by (simp add: getTask_def row_status_def split: option.splits)

lemma tick_keeps_unready:
  assumes "pk_ok (store s)" and "row_status (store s) i = Some st"
    and "st \<noteq> QUEUED" and "st \<noteq> WAITING"
  shows "row_status (store (scheduleNextTasks now s)) i = Some st"
proof -
  have "i \<notin> task_id ` set (tasksToExecute s)"
  proof
    assume "i \<in> task_id ` set (tasksToExecute s)"
    then obtain t where t: "t \<in> set (getReadyTasks (store s))" "task_id t = i"
      using tasksToExecute_ready by auto
    from ready_rows [OF assms(1) t(1)] t(2) assms(2-4) show False by auto
  qed
  then have "row_status (store (foldl (executeTask_claim now) s (tasksToExecute s))) i
             = row_status (store s) i"
    by (simp add: row_status_def claims_other_row)
  with assms(2) show ?thesis by (simp add: scheduleNextTasks_alt)
qed

lemma recover_row_status:
  assumes "pk_ok db" and "row_status db i = Some st" and "st \<noteq> RUNNING"
  shows "row_status (recoverOrphanedTasks db) i = Some st"
proof -
  let ?f = "\<lambda>r. if status r = RUNNING then set_fields QUEUED recovery_updates r else r"
  have "row_status (map ?f db) i = map_option (status \<circ> ?f) (select_by_id db i)"
    by (rule row_status_map) simp
  with assms(2,3) show ?thesis
    unfolding recoverOrphanedTasks_map [OF assms(1)] by (auto simp: row_status_def)
qed

lemma step_keeps_terminal:
  assumes "step s s'" and "sys_inv s" and "row_status (store s) i = Some st"
    and "st = COMPLETED \<or> st = FAILED"
  shows "row_status (store s') i = Some st"
  using assms
proof (induction rule: step.induct)
  case (tick s now)
  then show ?case by (intro tick_keeps_unready) (auto simp: sys_inv_def)
next
  case (finish task s now oc)
  then have "row_status (store s) (task_id task) = Some RUNNING" by (simp add: sys_inv_def)
  with finish.prems have "i \<noteq> task_id task" by auto
  with finish.prems show ?case by (simp add: row_status_def finish_other_row)
next
  case (post s frames now taskInput)
  then show ?case using post_keeps_rows [of s i _ frames now taskInput] by (auto simp: row_status_def)
next
  case (halt s)
  then show ?case by (simp add: stop_def)
next
  case (restart s now)
  then have pk: "pk_ok (store s)" by (simp add: sys_inv_def)
  let ?s = "(new_system (store s) (maxConcurrentTasks s))
              \<lparr>isRunning := True, store := recoverOrphanedTasks (store s)\<rparr>"
  have "row_status (store ?s) i = Some st"
    using recover_row_status [OF pk restart.prems(2)] restart.prems(3) by auto
  moreover have "pk_ok (store ?s)" using recover_pk [OF pk] by simp
  ultimately have "row_status (store (scheduleNextTasks now ?s)) i = Some st"
    using restart.prems(3) by (intro tick_keeps_unready) auto
  then show ?case by (simp add: start_def new_system_def)
qed

text \<open>
  Claim C3. From a reachable state in which a task is COMPLETED or FAILED, no sequence of
  steps of the system (ticks with their claims, terminal writes of runners, posts, stops,
  restarts with recovery) leads to a state in which the task has another status.
\<close>

theorem terminal_status_never_exited:
  assumes "reachable m s" and "step\<^sup>*\<^sup>* s s'"
    and "getTask (store s) i = Some t" and "status t = COMPLETED \<or> status t = FAILED"
  shows "\<exists>t'. getTask (store s') i = Some t' \<and> status t' = status t"
proof -
  from assms(3) have st: "row_status (store s) i = Some (status t)"
    using getTask_status [of "store s" i] by simp
  from assms(2,1) have "reachable m s' \<and> row_status (store s') i = Some (status t)"
  proof (induction rule: rtranclp_induct)
    case base
    with st show ?case by simp
  next
    case (step y z)
    then have y: "reachable m y" "row_status (store y) i = Some (status t)" by simp_all
    from reachable.after [OF y(1) step.hyps(2)]
      step_keeps_terminal [OF step.hyps(2) reachable_inv [OF y(1)] y(2) assms(4)]
    show ?case by simp
  qed
  then have "map_option status (getTask (store s') i) = Some (status t)"
    by (simp add: getTask_status)
  then show ?thesis by auto
qed

section \<open>A run of two tasks\<close>

text \<open>
  One slot. Task \<open>a\<close> is posted, then task \<open>b\<close> that depends on \<open>a\<close>; a tick claims \<open>a\<close>;
  the runner of \<open>a\<close> finishes with success.
\<close>

definition chain_posted :: system where
  "chain_posted =
     post_task 5000 6 \<lparr>ti_id = ''b'', ti_type = ''X'', ti_duration_ms = 0, ti_dependencies = Some [''a'']\<rparr>
       (post_task 5000 5 \<lparr>ti_id = ''a'', ti_type = ''X'', ti_duration_ms = 10, ti_dependencies = None\<rparr>
          (start 0 (new_system [] 1)))"

definition chain_task_a :: Task where
  "chain_task_a =
     \<lparr>task_id = ''a'', task_type = ''X'', duration_ms = 10, dependencies = [], status = QUEUED,
      created_at = 5, started_at = None, completed_at = None, error = None, retry_count = Some 0\<rparr>"

definition chain_running :: system where
  "chain_running = scheduleNextTasks 7 chain_posted"

definition chain_done :: system where
  "chain_done = executeTask_finish 20 Resolved chain_running chain_task_a"

lemma chain_posted_eq:
  "chain_posted =
     \<lparr>store =
        [\<lparr>task_id = ''a'', task_type = ''X'', duration_ms = 10, dependencies = [], status = QUEUED,
          created_at = 5, started_at = None, completed_at = None, error = None,
          retry_count = Some 0, version = 0\<rparr>,
         \<lparr>task_id = ''b'', task_type = ''X'', duration_ms = 0, dependencies = [''a''], status = WAITING,
          created_at = 6, started_at = None, completed_at = None, error = None,
          retry_count = Some 0, version = 0\<rparr>],
      maxConcurrentTasks = 1, runningTasks = [], isRunning = True, sleeping = []\<rparr>"
  by (auto simp: chain_posted_def eval_defs hasCycle.simps hasCycle_deps.simps)

lemma chain_running_eq:
  "chain_running =
     \<lparr>store =
        [\<lparr>task_id = ''a'', task_type = ''X'', duration_ms = 10, dependencies = [], status = RUNNING,
          created_at = 5, started_at = Some 7, completed_at = None, error = None,
          retry_count = Some 0, version = 1\<rparr>,
         \<lparr>task_id = ''b'', task_type = ''X'', duration_ms = 0, dependencies = [''a''], status = WAITING,
          created_at = 6, started_at = None, completed_at = None, error = None,
          retry_count = Some 0, version = 0\<rparr>],
      maxConcurrentTasks = 1, runningTasks = [''a''], isRunning = True, sleeping = [chain_task_a]\<rparr>"
  by (simp add: chain_running_def chain_posted_eq chain_task_a_def eval_defs)

lemma chain_done_eq:
  "chain_done =
     \<lparr>store =
        [\<lparr>task_id = ''a'', task_type = ''X'', duration_ms = 10, dependencies = [], status = COMPLETED,
          created_at = 5, started_at = Some 7, completed_at = Some 20, error = None,
          retry_count = Some 0, version = 2\<rparr>,
         \<lparr>task_id = ''b'', task_type = ''X'', duration_ms = 0, dependencies = [''a''], status = WAITING,
          created_at = 6, started_at = None, completed_at = None, error = None,
          retry_count = Some 0, version = 0\<rparr>],
      maxConcurrentTasks = 1, runningTasks = [], isRunning = True, sleeping = []\<rparr>"
  by (simp add: chain_done_def chain_running_eq chain_task_a_def eval_defs)

lemma chain_posted_reachable: "reachable 1 chain_posted"
  unfolding chain_posted_def
  by (intro reachable.after [OF _ step.post] reachable.boot)

lemma chain_running_reachable: "reachable 1 chain_running"
  unfolding chain_running_def
  by (rule reachable.after [OF chain_posted_reachable step.tick])

lemma chain_done_reachable: "reachable 1 chain_done"
  unfolding chain_done_def
  by (rule reachable.after [OF chain_running_reachable step.finish])
     (simp add: chain_running_eq)

theorem running_tasks_bounded_witness:
  "runningTasks chain_running = [''a'']
   \<and> int (length (runningTasks chain_running)) \<le> 1
   \<and> length (sleeping chain_running) = length (runningTasks chain_running)
   \<and> int (length (sleeping (scheduleNextTasks 8 chain_running)))
        - int (length (sleeping chain_running)) \<le> 1 - int (length (runningTasks chain_running))"
proof -
  have "(0::int) \<le> 1" by simp
  from running_tasks_bounded [OF this chain_running_reachable, of 8]
  show ?thesis by (simp add: chain_running_eq)
qed

theorem terminal_status_never_exited_witness:
  "\<exists>t'. getTask (store (scheduleNextTasks 30 chain_done)) ''a'' = Some t' \<and> status t' = COMPLETED"
proof -
  have s: "step\<^sup>*\<^sup>* chain_done (scheduleNextTasks 30 chain_done)"
    by (rule r_into_rtranclp) (rule step.tick)
  have g: "getTask (store chain_done) ''a'' =
     Some \<lparr>task_id = ''a'', task_type = ''X'', duration_ms = 10, dependencies = [], status = COMPLETED,
          created_at = 5, started_at = Some 7, completed_at = Some 20, error = None,
          retry_count = Some 0\<rparr>"
    by (simp add: chain_done_eq getTask_def select_by_id_def rowToTask_def falsy_num_def falsy_str_def)
  from terminal_status_never_exited [OF chain_done_reachable s g] show ?thesis by simp
qed

section \<open>Waiting tasks and their dependencies\<close>

text \<open>
  Invariant I8 of the specification, as it is worded: every task that is WAITING has a
  dependency that is not COMPLETED.
\<close>

definition waiting_has_open_dependency :: "database \<Rightarrow> bool" where
  "waiting_has_open_dependency db \<longleftrightarrow>
     (\<forall>r \<in> set db. status r = WAITING \<longrightarrow>
        (\<exists>d \<in> set (dependencies r). row_status db d \<noteq> Some COMPLETED))"

text \<open>
  Claim C8 fails on the code. After the COMPLETED write of \<open>a\<close> has committed, \<open>b\<close> is
  WAITING and its only dependency is COMPLETED: nothing moves \<open>b\<close> out of WAITING when
  \<open>a\<close> completes.
\<close>

theorem waiting_after_dependency_completed:
  "reachable 1 chain_done \<and> \<not> waiting_has_open_dependency (store chain_done)"
  using chain_done_reachable
  by (simp add: chain_done_eq waiting_has_open_dependency_def row_status_def select_by_id_def)

lemma claim_sleeping:
  assumes "pk_ok (store s)" and "row_status (store s) (task_id t) = Some st"
  shows "sleeping (executeTask_claim now s t) = sleeping s @ [t]"
proof -
  from assms(2) obtain r where "select_by_id (store s) (task_id t) = Some r"
    by (auto simp: row_status_def)
  from claim_present [OF assms(1) this, of now] show ?thesis by simp
qed

lemma claims_sleeping:
  "pk_ok (store s) \<Longrightarrow> distinct (map task_id ts) \<Longrightarrow>
   (\<forall>t \<in> set ts. \<exists>st. row_status (store s) (task_id t) = Some st) \<Longrightarrow>
   sleeping (foldl (executeTask_claim now) s ts) = sleeping s @ ts"
proof (induction ts arbitrary: s)
  case Nil
  then show ?case by simp
next
  case (Cons t ts)
  from Cons.prems(3) obtain st where st: "row_status (store s) (task_id t) = Some st" by auto
  have d: "distinct (map task_id ts)" and nt: "task_id t \<notin> task_id ` set ts"
    using Cons.prems(2) by auto
  have "\<forall>t' \<in> set ts. \<exists>st. row_status (store (executeTask_claim now s t)) (task_id t') = Some st"
  proof
    fix t' assume t': "t' \<in> set ts"
    with nt have "task_id t' \<noteq> task_id t" by (metis imageI)
    then show "\<exists>st. row_status (store (executeTask_claim now s t)) (task_id t') = Some st"
      using Cons.prems(3) t' by (simp add: claim_row_status_other)
  qed
  with Cons.IH [of "executeTask_claim now s t"] Cons.prems(1) d
  have "sleeping (foldl (executeTask_claim now) (executeTask_claim now s t) ts)
        = sleeping (executeTask_claim now s t) @ ts" by simp
  with claim_sleeping [OF Cons.prems(1) st, of now] show ?case by simp
qed

lemma tick_claims_attempted:
  assumes "sys_inv s" and "isRunning s" and "t \<in> set (tasksToExecute s)"
  shows "row_status (store (scheduleNextTasks now s)) (task_id t) = Some RUNNING
       \<and> task_id t \<in> set (runningTasks (scheduleNextTasks now s))"
proof -
  from assms(1) have pk: "pk_ok (store s)" by (simp add: sys_inv_def)
  from assms(3) have "0 < availableSlots s"
    by (cases "0 < availableSlots s") (simp_all add: tasksToExecute_def)
  with assms(2) have eq: "scheduleNextTasks now s = foldl (executeTask_claim now) s (tasksToExecute s)"
    by (simp add: scheduleNextTasks_alt)
  have "\<forall>t \<in> set (tasksToExecute s). \<exists>st. row_status (store s) (task_id t) = Some st"
    using ready_rows [OF pk] tasksToExecute_ready by blast
  from claims_sleeping [OF pk tasksToExecute_distinct [OF pk] this, of now]
  have "t \<in> set (sleeping (scheduleNextTasks now s))" using assms(3) eq by simp
  moreover have "sys_inv (scheduleNextTasks now s)" using assms(1) by (rule tick_inv)
  ultimately show ?thesis unfolding sys_inv_def by (metis image_eqI set_map)
qed

lemma update_keeps_other_rows:
  "r \<in> set db \<Longrightarrow> task_id r \<noteq> i \<Longrightarrow> r \<in> set (snd (updateTaskStatus db i st v u))"
  by (force simp: updateTaskStatus_def where_clause_def Let_def image_iff)

lemma finish_keeps_other_rows:
  "r \<in> set (store s) \<Longrightarrow> task_id r \<noteq> task_id t \<Longrightarrow>
   r \<in> set (store (executeTask_finish now oc s t))"
  by (simp add: executeTask_finish_alt update_keeps_other_rows split: option.splits)

text \<open>
  Claim C8, amended. In every reachable state: a task is WAITING when it is materialised
  only if one of its dependencies is not COMPLETED in the table it is materialised from;
  the terminal write of a runner leaves every WAITING row of the table as it is, so a
  WAITING task may have all its dependencies COMPLETED; such a task is one of the ready
  tasks; and a tick of the running scheduler that has the task among its claim attempts
  claims it directly from WAITING to RUNNING and adds it to \<open>runningTasks\<close>.
\<close>

theorem waiting_until_claimed:
  assumes "reachable m s"
  shows "(status (createTask (store s) now inp) = WAITING \<longrightarrow>
            (\<exists>d \<in> set (dependencies (createTask (store s) now inp)).
               row_status (store s) d \<noteq> Some COMPLETED))
       \<and> (\<forall>r \<in> set (store s). \<forall>t \<in> set (sleeping s). status r = WAITING \<longrightarrow>
            r \<in> set (store (executeTask_finish now oc s t)))
       \<and> (\<forall>r \<in> set (store s). status r = WAITING \<and>
              (\<forall>d \<in> set (dependencies r). row_status (store s) d = Some COMPLETED) \<longrightarrow>
              rowToTask r \<in> set (getReadyTasks (store s)))
       \<and> (\<forall>r \<in> set (store s). status r = WAITING \<and> isRunning s \<and>
              rowToTask r \<in> set (tasksToExecute s) \<longrightarrow>
              row_status (store (scheduleNextTasks now s)) (task_id r) = Some RUNNING
              \<and> task_id r \<in> set (runningTasks (scheduleNextTasks now s)))"
proof -
  from reachable_inv [OF assms] have inv: "sys_inv s" .
  then have pk: "pk_ok (store s)" by (simp add: sys_inv_def)
  have comp: "d \<in> set (map task_id (filter (\<lambda>t. status t = COMPLETED) (getAllTasks (store s))))
              \<longleftrightarrow> row_status (store s) d = Some COMPLETED" for d
    using completed_ids [OF pk, of d] getTask_status [of "store s" d]
    by (cases "getTask (store s) d") auto
  have a: "\<exists>d \<in> set (dependencies (createTask (store s) now inp)).
             row_status (store s) d \<noteq> Some COMPLETED"
    if "status (createTask (store s) now inp) = WAITING"
    using that unfolding createTask_def Let_def
    by (auto simp: list_all_iff comp [simplified] split: if_splits)
  have b: "r \<in> set (store (executeTask_finish now oc s t))"
    if "r \<in> set (store s)" "t \<in> set (sleeping s)" "status r = WAITING" for r t
  proof -
    from inv that(2) have "row_status (store s) (task_id t) = Some RUNNING"
      by (simp add: sys_inv_def)
    moreover from pk_row_by_id [OF pk that(1) refl] that(3)
    have "row_status (store s) (task_id r) = Some WAITING" by (simp add: row_status_def)
    ultimately have "task_id r \<noteq> task_id t" by auto
    with that(1) show ?thesis by (rule finish_keeps_other_rows)
  qed
  have c: "rowToTask r \<in> set (getReadyTasks (store s))"
    if "r \<in> set (store s)" "status r = WAITING"
       "\<forall>d \<in> set (dependencies r). row_status (store s) d = Some COMPLETED" for r
  proof -
    have "is_ready (store s) (rowToTask r)"
      unfolding is_ready_def list_all_iff using that(2,3) comp by simp
    with that(1) show ?thesis unfolding getReadyTasks_filter by simp
  qed
  have d: "row_status (store (scheduleNextTasks now s)) (task_id r) = Some RUNNING
           \<and> task_id r \<in> set (runningTasks (scheduleNextTasks now s))"
    if "isRunning s" "rowToTask r \<in> set (tasksToExecute s)" for r
    using tick_claims_attempted [OF inv that, of now] by simp
  show ?thesis using a b c d by blast
qed

theorem waiting_until_claimed_witness:
  "status (createTask (store chain_running) 8
       \<lparr>ti_id = ''c'', ti_type = ''X'', ti_duration_ms = 0, ti_dependencies = Some [''a'']\<rparr>) = WAITING
   \<and> row_status (store chain_running) ''a'' \<noteq> Some COMPLETED
   \<and> row_status (store chain_done) ''b'' = Some WAITING
   \<and> map task_id (getReadyTasks (store chain_done)) = [''b'']
   \<and> row_status (store (scheduleNextTasks 30 chain_done)) ''b'' = Some RUNNING
   \<and> ''b'' \<in> set (runningTasks (scheduleNextTasks 30 chain_done))"
proof -
  let ?b = "\<lparr>task_id = ''b'', task_type = ''X'', duration_ms = 0, dependencies = [''a''],
          status = WAITING, created_at = 6, started_at = None, completed_at = None, error = None,
          retry_count = Some 0, version = 0\<rparr>"
  let ?c = "\<lparr>ti_id = ''c'', ti_type = ''X'', ti_duration_ms = 0, ti_dependencies = Some [''a'']\<rparr>"
  have w: "status (createTask (store chain_running) 8 ?c) = WAITING"
    by (auto simp: chain_running_eq createTask_def getAllTasks_def)
  from waiting_until_claimed [OF chain_running_reachable, of 8 ?c] w
  have o: "row_status (store chain_running) ''a'' \<noteq> Some COMPLETED"
    by (simp add: createTask_def Let_def)
  have "?b \<in> set (store chain_running)" "chain_task_a \<in> set (sleeping chain_running)"
    by (simp_all add: chain_running_eq)
  with waiting_until_claimed [OF chain_running_reachable, of 20 ?c Resolved]
  have "?b \<in> set (store (executeTask_finish 20 Resolved chain_running chain_task_a))"
    by (metis (no_types, lifting) Task.select_convs(5))
  then have k: "row_status (store chain_done) ''b'' = Some WAITING"
    by (simp add: chain_done_eq row_status_def select_by_id_def)
  have all: "getAllTasks (store chain_done) =
      [\<lparr>task_id = ''a'', task_type = ''X'', duration_ms = 10, dependencies = [], status = COMPLETED,
          created_at = 5, started_at = Some 7, completed_at = Some 20, error = None,
          retry_count = Some 0\<rparr>,
       rowToTask ?b]"
    by (simp add: chain_done_eq getAllTasks_def rowToTask_def falsy_num_def falsy_str_def)
  have r: "getReadyTasks (store chain_done) = [rowToTask ?b]"
    unfolding getReadyTasks_def Let_def all by simp
  have e: "rowToTask ?b \<in> set (tasksToExecute chain_done)"
    unfolding tasksToExecute_def r by (simp add: availableSlots_def chain_done_eq)
  have "?b \<in> set (store chain_done)" "isRunning chain_done" by (simp_all add: chain_done_eq)
  with waiting_until_claimed [OF chain_done_reachable, of 30 ?c Resolved] e
  have c: "row_status (store (scheduleNextTasks 30 chain_done)) (task_id ?b) = Some RUNNING
           \<and> task_id ?b \<in> set (runningTasks (scheduleNextTasks 30 chain_done))"
    by (metis (no_types, lifting) Task.select_convs(5))
  from r have r': "map task_id (getReadyTasks (store chain_done)) = [''b'']" by simp
  from w o k r' c show ?thesis by simp
qed

end
